theory Spec2Isabelle
  imports Main "HOL-Library.Word"
begin

section \<open>Machine types\<close>

text \<open>
  The program is \<^verbatim>\<open>SpaceInvaders/main.cpp\<close>. \<^verbatim>\<open>size_t\<close> is an unsigned 64-bit
  integer, \<^verbatim>\<open>int\<close> a 32-bit two's complement integer (read with \<open>sint\<close>),
  \<^verbatim>\<open>uint8_t\<close> and \<^verbatim>\<open>uint32_t\<close> are unsigned. Arithmetic on words wraps around.
  Signed overflow, which C++ leaves undefined, is taken as the two's complement result.

  An access outside an array and a division by zero have no defined result in C++.
  Every function that indexes an array therefore returns an \<open>option\<close>: \<open>None\<close>
  stands for such an access, \<open>Some\<close> for normal completion.
\<close>

type_synonym size_t = "64 word"
type_synonym c_int = "32 word"
type_synonym uint8_t = "8 word"
type_synonym uint32_t = "32 word"

section \<open>Data model\<close>

text \<open>
  The structs of the source. Field names carry the struct's name as a prefix, since
  several structs have fields \<^verbatim>\<open>x\<close>, \<^verbatim>\<open>y\<close>, \<^verbatim>\<open>width\<close> and \<^verbatim>\<open>height\<close>.
\<close>

record Bullet =
  bullet_x :: size_t
  bullet_y :: size_t
  bullet_dir :: c_int

record Sprite =
  sprite_width :: size_t
  sprite_height :: size_t
  sprite_data :: "uint8_t list"

record Buffer =
  buffer_width :: size_t
  buffer_height :: size_t
  buffer_data :: "uint32_t list"

record Alien =
  alien_x :: size_t
  alien_y :: size_t
  alien_type :: uint8_t

record Player =
  player_x :: size_t
  player_y :: size_t
  player_life :: size_t

record Game =
  game_width :: size_t
  game_height :: size_t
  num_aliens :: size_t
  num_bullets :: size_t
  aliens :: "Alien list"
  player :: Player
  bullets :: "Bullet list"

record SpriteAnimation =
  anim_loop :: bool
  num_frames :: size_t
  frame_duration :: size_t
  anim_time :: size_t
  frames :: "Sprite list"

definition MAX_BULLETS :: nat where
  "MAX_BULLETS = 128"

definition ALIEN_DEAD :: uint8_t where
  "ALIEN_DEAD = 0"

definition ALIEN_TYPE_A :: uint8_t where
  "ALIEN_TYPE_A = 1"

definition ALIEN_TYPE_B :: uint8_t where
  "ALIEN_TYPE_B = 2"

definition ALIEN_TYPE_C :: uint8_t where
  "ALIEN_TYPE_C = 3"

text \<open>
  The globals of the program and the locals of \<^verbatim>\<open>main\<close> that live across iterations
  of the game loop.
\<close>

record State =
  game :: Game
  alien_animation :: "SpriteAnimation list"
  death_counters :: "uint8_t list"
  game_running :: bool
  move_dir :: c_int
  fire_pressed :: bool
  score :: size_t
  player_move_dir :: c_int

section \<open>Counted loops\<close>

text \<open>
  \<^verbatim>\<open>for (size_t i = 0; i < n; i++) body\<close> runs the body for \<open>i = 0, ..., n - 1\<close>;
  the counter cannot wrap since it stays below \<open>n\<close>. The loop stops at the first
  undefined access.
\<close>

fun for_loop :: "nat list \<Rightarrow> (nat \<Rightarrow> 's \<Rightarrow> 's option) \<Rightarrow> 's \<Rightarrow> 's option" where
  "for_loop [] body s = Some s"
| "for_loop (i # rest) body s =
     (case body i s of None \<Rightarrow> None | Some s' \<Rightarrow> for_loop rest body s')"

section \<open>Sprites\<close>

definition bullet_sprite :: Sprite where
  "bullet_sprite = \<lparr>sprite_width = 1, sprite_height = 3, sprite_data = [1, 1, 1]\<rparr>"

definition alien_sprites :: "Sprite list" where
  "alien_sprites =
   [\<lparr>sprite_width = 8, sprite_height = 8, sprite_data = concat
      [[0,0,0,1,1,0,0,0],
       [0,0,1,1,1,1,0,0],
       [0,1,1,1,1,1,1,0],
       [1,1,0,1,1,0,1,1],
       [1,1,1,1,1,1,1,1],
       [0,1,0,1,1,0,1,0],
       [1,0,0,0,0,0,0,1],
       [0,1,0,0,0,0,1,0]]\<rparr>,
    \<lparr>sprite_width = 8, sprite_height = 8, sprite_data = concat
      [[0,0,0,1,1,0,0,0],
       [0,0,1,1,1,1,0,0],
       [0,1,1,1,1,1,1,0],
       [1,1,0,1,1,0,1,1],
       [1,1,1,1,1,1,1,1],
       [0,0,1,0,0,1,0,0],
       [0,1,0,1,1,0,1,0],
       [1,0,1,0,0,1,0,1]]\<rparr>,
    \<lparr>sprite_width = 11, sprite_height = 8, sprite_data = concat
      [[0,0,1,0,0,0,0,0,1,0,0],
       [0,0,0,1,0,0,0,1,0,0,0],
       [0,0,1,1,1,1,1,1,1,0,0],
       [0,1,1,0,1,1,1,0,1,1,0],
       [1,1,1,1,1,1,1,1,1,1,1],
       [1,0,1,1,1,1,1,1,1,0,1],
       [1,0,1,0,0,0,0,0,1,0,1],
       [0,0,0,1,1,0,1,1,0,0,0]]\<rparr>,
    \<lparr>sprite_width = 11, sprite_height = 8, sprite_data = concat
      [[0,0,1,0,0,0,0,0,1,0,0],
       [1,0,0,1,0,0,0,1,0,0,1],
       [1,0,1,1,1,1,1,1,1,0,1],
       [1,1,1,0,1,1,1,0,1,1,1],
       [1,1,1,1,1,1,1,1,1,1,1],
       [0,1,1,1,1,1,1,1,1,1,0],
       [0,0,1,0,0,0,0,0,1,0,0],
       [0,1,0,0,0,0,0,0,0,1,0]]\<rparr>,
    \<lparr>sprite_width = 12, sprite_height = 8, sprite_data = concat
      [[0,0,0,0,1,1,1,1,0,0,0,0],
       [0,1,1,1,1,1,1,1,1,1,1,0],
       [1,1,1,1,1,1,1,1,1,1,1,1],
       [1,1,1,0,0,1,1,0,0,1,1,1],
       [1,1,1,1,1,1,1,1,1,1,1,1],
       [0,0,0,1,1,0,0,1,1,0,0,0],
       [0,0,1,1,0,1,1,0,1,1,0,0],
       [1,1,0,0,0,0,0,0,0,0,1,1]]\<rparr>,
    \<lparr>sprite_width = 12, sprite_height = 8, sprite_data = concat
      [[0,0,0,0,1,1,1,1,0,0,0,0],
       [0,1,1,1,1,1,1,1,1,1,1,0],
       [1,1,1,1,1,1,1,1,1,1,1,1],
       [1,1,1,0,0,1,1,0,0,1,1,1],
       [1,1,1,1,1,1,1,1,1,1,1,1],
       [0,0,1,1,1,0,0,1,1,1,0,0],
       [0,1,1,0,0,1,1,0,0,1,1,0],
       [0,0,1,1,0,0,0,0,1,1,0,0]]\<rparr>]"

definition alien_death_sprite :: Sprite where
  "alien_death_sprite = \<lparr>sprite_width = 13, sprite_height = 7, sprite_data = concat
      [[0,1,0,0,1,0,0,0,1,0,0,1,0],
       [0,0,1,0,0,1,0,1,0,0,1,0,0],
       [0,0,0,1,0,0,0,0,0,1,0,0,0],
       [1,1,0,0,0,0,0,0,0,0,0,1,1],
       [0,0,0,1,0,0,0,0,0,1,0,0,0],
       [0,0,1,0,0,1,0,1,0,0,1,0,0],
       [0,1,0,0,1,0,0,0,1,0,0,1,0]]\<rparr>"

definition player_sprite :: Sprite where
  "player_sprite = \<lparr>sprite_width = 11, sprite_height = 7, sprite_data = concat
      [[0,0,0,0,0,1,0,0,0,0,0],
       [0,0,0,0,1,1,1,0,0,0,0],
       [0,0,0,0,1,1,1,0,0,0,0],
       [0,1,1,1,1,1,1,1,1,1,0],
       [1,1,1,1,1,1,1,1,1,1,1],
       [1,1,1,1,1,1,1,1,1,1,1],
       [1,1,1,1,1,1,1,1,1,1,1]]\<rparr>"

section \<open>Compositor\<close>

definition rgb_to_uint32 :: "uint8_t \<Rightarrow> uint8_t \<Rightarrow> uint8_t \<Rightarrow> uint32_t" where
  "rgb_to_uint32 r g b =
     or (or (or (push_bit 24 (ucast r)) (push_bit 16 (ucast g))) (push_bit 8 (ucast b))) 255"

definition sprite_overlap_check ::
  "Sprite \<Rightarrow> size_t \<Rightarrow> size_t \<Rightarrow> Sprite \<Rightarrow> size_t \<Rightarrow> size_t \<Rightarrow> bool" where
  "sprite_overlap_check sp_a x_a y_a sp_b x_b y_b =
     (if x_a < x_b + sprite_width sp_b \<and> x_a + sprite_width sp_a > x_b \<and>
         y_a < y_b + sprite_height sp_b \<and> y_a + sprite_height sp_a > y_b
      then True else False)"

text \<open>
  The body of the inner loop of \<^verbatim>\<open>buffer_draw_sprite\<close>: the mask is read first,
  then the two bounds tests guard the write.
\<close>

definition draw_pixel ::
  "Sprite \<Rightarrow> size_t \<Rightarrow> size_t \<Rightarrow> uint32_t \<Rightarrow> nat \<Rightarrow> nat \<Rightarrow> Buffer \<Rightarrow> Buffer option" where
  "draw_pixel sprite x y color xi yi buffer =
     (let mi = unat (word_of_nat yi * sprite_width sprite + word_of_nat xi :: size_t) in
      if mi \<ge> length (sprite_data sprite) then None
      else
        let row = sprite_height sprite - 1 + y - word_of_nat yi;
            col = x + word_of_nat xi
        in if sprite_data sprite ! mi \<noteq> 0 \<and> row < buffer_height buffer \<and> col < buffer_width buffer
           then
             (let di = unat (row * buffer_width buffer + col) in
              if di \<ge> length (buffer_data buffer) then None
              else Some (buffer\<lparr>buffer_data := (buffer_data buffer)[di := color]\<rparr>))
           else Some buffer)"

definition buffer_draw_sprite ::
  "Buffer \<Rightarrow> Sprite \<Rightarrow> size_t \<Rightarrow> size_t \<Rightarrow> uint32_t \<Rightarrow> Buffer option" where
  "buffer_draw_sprite buffer sprite x y color =
     for_loop [0..<unat (sprite_width sprite)]
       (\<lambda>xi. for_loop [0..<unat (sprite_height sprite)]
                (\<lambda>yi. draw_pixel sprite x y color xi yi))
       buffer"


text \<open>
  \<^verbatim>\<open>buffer_draw_text\<close>. The text is the C string up to its terminator: the loop stops
  at the first NUL character or at the end of the list. \<^verbatim>\<open>char\<close> is a signed 8-bit
  integer. The glyph's data is the sheet's data from offset \<open>character * stride\<close> on.
\<close>

fun draw_text_loop ::
  "Sprite \<Rightarrow> size_t \<Rightarrow> uint32_t \<Rightarrow> string \<Rightarrow> size_t \<Rightarrow> Buffer \<Rightarrow> Buffer option" where
  "draw_text_loop text_spritesheet y color [] xp buffer = Some buffer"
| "draw_text_loop text_spritesheet y color (c # text) xp buffer =
     (if c = CHR 0x00 then Some buffer
      else
        let character = (of_char c :: 8 word) - 32 in
        if character <s 0 \<or> 65 \<le>s character
        then draw_text_loop text_spritesheet y color text xp buffer
        else
          let stride = sprite_width text_spritesheet * sprite_height text_spritesheet;
              sprite = text_spritesheet
                \<lparr>sprite_data := drop (unat (scast character * stride)) (sprite_data text_spritesheet)\<rparr>
          in case buffer_draw_sprite buffer sprite xp y color of
               None \<Rightarrow> None
             | Some buffer' \<Rightarrow>
                 draw_text_loop text_spritesheet y color text (xp + (sprite_width sprite + 1)) buffer')"

definition buffer_draw_text ::
  "Buffer \<Rightarrow> Sprite \<Rightarrow> string \<Rightarrow> size_t \<Rightarrow> size_t \<Rightarrow> uint32_t \<Rightarrow> Buffer option" where
  "buffer_draw_text buffer text_spritesheet text x y color =
     draw_text_loop text_spritesheet y color text x buffer"

section \<open>Input\<close>

datatype Key = KEY_ESCAPE | KEY_RIGHT | KEY_LEFT | KEY_SPACE | KEY_OTHER

datatype Action = RELEASE | PRESS | REPEAT

fun key_callback :: "Key \<Rightarrow> Action \<Rightarrow> State \<Rightarrow> State" where
  "key_callback KEY_ESCAPE action s =
     (if action = PRESS then s\<lparr>game_running := False\<rparr> else s)"
| "key_callback KEY_RIGHT action s =
     (if action = PRESS then s\<lparr>move_dir := move_dir s + 1\<rparr>
      else if action = RELEASE then s\<lparr>move_dir := move_dir s - 1\<rparr> else s)"
| "key_callback KEY_LEFT action s =
     (if action = PRESS then s\<lparr>move_dir := move_dir s - 1\<rparr>
      else if action = RELEASE then s\<lparr>move_dir := move_dir s + 1\<rparr> else s)"
| "key_callback KEY_SPACE action s =
     (if action = RELEASE then s\<lparr>fire_pressed := True\<rparr> else s)"
| "key_callback KEY_OTHER action s = s"

text \<open>\<^verbatim>\<open>glfwPollEvents\<close> delivers the pending key events to the callback, in order.\<close>

definition poll_events :: "(Key \<times> Action) list \<Rightarrow> State \<Rightarrow> State" where
  "poll_events events s = fold (\<lambda>(key, action). key_callback key action) events s"

section \<open>Initialisation\<close>

text \<open>
  \<^verbatim>\<open>new T[n]\<close> and the array inside \<^verbatim>\<open>Game\<close> are not initialised: their first
  contents are a parameter.
\<close>

definition alloc :: "nat \<Rightarrow> (nat \<Rightarrow> 'a) \<Rightarrow> 'a list" where
  "alloc n fresh = map fresh [0..<n]"

definition init_animation :: "nat \<Rightarrow> SpriteAnimation list \<Rightarrow> SpriteAnimation list option" where
  "init_animation i anims =
     (if i \<ge> length anims \<or> 2 * i + 1 \<ge> length alien_sprites then None
      else Some (anims[i := \<lparr>anim_loop = True, num_frames = 2, frame_duration = 10, anim_time = 0,
                              frames = [alien_sprites ! (2 * i), alien_sprites ! (2 * i + 1)]\<rparr>]))"

definition init_alien :: "nat \<Rightarrow> nat \<Rightarrow> Alien list \<Rightarrow> Alien list option" where
  "init_alien yi xi as =
     (let i = unat (word_of_nat yi * 11 + word_of_nat xi :: size_t) in
      if i \<ge> length as then None
      else
        let ty = (ucast ((5 - word_of_nat yi :: size_t) div 2 + 1) :: uint8_t);
            si = sint (2 * (ucast ty - 1) :: c_int)
        in if si < 0 \<or> nat si \<ge> length alien_sprites then None
           else
             let sprite = alien_sprites ! nat si
             in Some (as[i := \<lparr>alien_x = 16 * word_of_nat xi + 20 +
                                   (sprite_width alien_death_sprite - sprite_width sprite) div 2,
                                 alien_y = 17 * word_of_nat yi + 128,
                                 alien_type = ty\<rparr>]))"

definition init_aliens :: "Alien list \<Rightarrow> Alien list option" where
  "init_aliens as = for_loop [0..<5] (\<lambda>yi. for_loop [0..<11] (\<lambda>xi. init_alien yi xi)) as"

definition init_death_counter :: "nat \<Rightarrow> uint8_t list \<Rightarrow> uint8_t list option" where
  "init_death_counter i dcs = (if i \<ge> length dcs then None else Some (dcs[i := 10]))"

definition main_init ::
  "(nat \<Rightarrow> SpriteAnimation) \<Rightarrow> (nat \<Rightarrow> Alien) \<Rightarrow> (nat \<Rightarrow> Bullet) \<Rightarrow> (nat \<Rightarrow> uint8_t) \<Rightarrow> State option" where
  "main_init fresh_animations fresh_aliens fresh_bullets fresh_counters =
     (let buffer_width = (224 :: size_t); buffer_height = (256 :: size_t); n = (55 :: size_t) in
      case for_loop [0..<3] init_animation (alloc 3 fresh_animations) of
        None \<Rightarrow> None
      | Some anims \<Rightarrow>
          (case init_aliens (alloc (unat n) fresh_aliens) of
             None \<Rightarrow> None
           | Some as \<Rightarrow>
               (case for_loop [0..<unat n] init_death_counter (alloc (unat n) fresh_counters) of
                  None \<Rightarrow> None
                | Some dcs \<Rightarrow>
                    Some \<lparr>game = \<lparr>game_width = buffer_width, game_height = buffer_height,
                                  num_aliens = n, num_bullets = 0, aliens = as,
                                  player = \<lparr>player_x = 112 - 5, player_y = 32, player_life = 3\<rparr>,
                                  bullets = alloc MAX_BULLETS fresh_bullets\<rparr>,
                          alien_animation = anims,
                          death_counters = dcs,
                          game_running = True,
                          move_dir = 0,
                          fire_pressed = False,
                          score = 0,
                          player_move_dir = 0\<rparr>)))"

section \<open>Drawing the aliens\<close>

text \<open>
  The frame an alien currently shows: \<^verbatim>\<open>alien_animation[alien.type - 1]\<close>, then
  \<^verbatim>\<open>frames[time / frame_duration]\<close>. The draw loop and the collision loop both
  compute it.
\<close>

definition current_frame_sprite :: "State \<Rightarrow> Alien \<Rightarrow> Sprite option" where
  "current_frame_sprite s alien =
     (let ti = sint (ucast (alien_type alien) - 1 :: c_int) in
      if ti < 0 \<or> nat ti \<ge> length (alien_animation s) then None
      else
        let animation = alien_animation s ! nat ti in
        if frame_duration animation = 0 then None
        else
          let current_frame = anim_time animation div frame_duration animation in
          if unat current_frame \<ge> length (frames animation) then None
          else Some (frames animation ! unat current_frame))"

definition draw_alien :: "State \<Rightarrow> nat \<Rightarrow> Buffer \<Rightarrow> Buffer option" where
  "draw_alien s ai buffer =
     (if ai \<ge> length (death_counters s) then None
      else if death_counters s ! ai = 0 then Some buffer
      else if ai \<ge> length (aliens (game s)) then None
      else
        let alien = aliens (game s) ! ai in
        if alien_type alien = ALIEN_DEAD
        then buffer_draw_sprite buffer alien_death_sprite (alien_x alien) (alien_y alien)
               (rgb_to_uint32 255 165 0)
        else
          (case current_frame_sprite s alien of
             None \<Rightarrow> None
           | Some sprite \<Rightarrow>
               buffer_draw_sprite buffer sprite (alien_x alien) (alien_y alien)
                 (rgb_to_uint32 210 0 0)))"

definition draw_aliens :: "State \<Rightarrow> Buffer \<Rightarrow> Buffer option" where
  "draw_aliens s buffer = for_loop [0..<unat (num_aliens (game s))] (draw_alien s) buffer"

section \<open>Simulation step\<close>

definition animation_step :: "nat \<Rightarrow> State \<Rightarrow> State option" where
  "animation_step i s =
     (if i \<ge> length (alien_animation s) then None
      else
        let a = alien_animation s ! i;
            a1 = a\<lparr>anim_time := anim_time a + 1\<rparr>;
            a2 = (if anim_time a1 = num_frames a1 * frame_duration a1
                  then a1\<lparr>anim_time := 0\<rparr> else a1)
        in Some (s\<lparr>alien_animation := (alien_animation s)[i := a2]\<rparr>))"

definition update_animations :: "State \<Rightarrow> State option" where
  "update_animations s = for_loop [0..<3] animation_step s"

definition death_counter_step :: "nat \<Rightarrow> State \<Rightarrow> State option" where
  "death_counter_step ai s =
     (if ai \<ge> length (aliens (game s)) then None
      else if alien_type (aliens (game s) ! ai) = ALIEN_DEAD
      then
        (if ai \<ge> length (death_counters s) then None
         else if death_counters s ! ai \<noteq> 0
         then Some (s\<lparr>death_counters := (death_counters s)[ai := death_counters s ! ai - 1]\<rparr>)
         else Some s)
      else Some s)"

definition update_death_counters :: "State \<Rightarrow> State option" where
  "update_death_counters s = for_loop [0..<unat (num_aliens (game s))] death_counter_step s"

text \<open>
  The pool is the array \<^verbatim>\<open>Bullet bullets[MAX_BULLETS]\<close>: a slot is an index below
  \<open>MAX_BULLETS\<close>. Removal from the pool is
  \<^verbatim>\<open>bullets[bi] = bullets[num_bullets - 1]; num_bullets--\<close>.
  With an empty pool the index wraps around to \<open>2^64 - 1\<close>, outside the array.
\<close>

definition bullet_slot :: "Game \<Rightarrow> nat \<Rightarrow> bool" where
  "bullet_slot g i \<longleftrightarrow> i < MAX_BULLETS \<and> i < length (bullets g)"

definition remove_bullet :: "nat \<Rightarrow> Game \<Rightarrow> Game option" where
  "remove_bullet bi g =
     (let last = unat (num_bullets g - 1) in
      if \<not> bullet_slot g bi \<or> \<not> bullet_slot g last then None
      else Some (g\<lparr>bullets := (bullets g)[bi := bullets g ! last],
                   num_bullets := num_bullets g - 1\<rparr>))"

text \<open>
  The body of the loop over the aliens, for the bullet slot \<open>bi\<close>. Its \<^verbatim>\<open>continue\<close>
  statements continue this loop, so after a hit the scan goes on with the next alien
  and with whatever the slot holds by then.
\<close>

definition check_alien :: "nat \<Rightarrow> nat \<Rightarrow> State \<Rightarrow> State option" where
  "check_alien bi ai s =
     (if ai \<ge> length (aliens (game s)) then None
      else
        let alien = aliens (game s) ! ai in
        if alien_type alien = ALIEN_DEAD then Some s
        else
          (case current_frame_sprite s alien of
             None \<Rightarrow> None
           | Some alien_sprite \<Rightarrow>
               if \<not> bullet_slot (game s) bi then None
               else
                 let bullet = bullets (game s) ! bi;
                     overlap = sprite_overlap_check bullet_sprite (bullet_x bullet) (bullet_y bullet)
                                 alien_sprite (alien_x alien) (alien_y alien)
                 in if overlap
                    then
                      let score' = score s + scast (10 * (4 - ucast (alien_type alien)) :: c_int);
                          alien' = alien\<lparr>alien_type := ALIEN_DEAD,
                                         alien_x := alien_x alien -
                                           (sprite_width alien_death_sprite - sprite_width alien_sprite) div 2\<rparr>;
                          g = (game s)\<lparr>aliens := (aliens (game s))[ai := alien']\<rparr>
                      in (case remove_bullet bi g of
                            None \<Rightarrow> None
                          | Some g' \<Rightarrow> Some (s\<lparr>game := g', score := score'\<rparr>))
                    else Some s))"

definition check_aliens :: "nat \<Rightarrow> State \<Rightarrow> State option" where
  "check_aliens bi s = for_loop [0..<unat (num_aliens (game s))] (check_alien bi) s"

text \<open>Advancing the bullet in slot \<open>bi\<close>: \<^verbatim>\<open>bullets[bi].y += bullets[bi].dir\<close>.\<close>

definition advance_bullet :: "nat \<Rightarrow> Game \<Rightarrow> Game option" where
  "advance_bullet bi g =
     (if \<not> bullet_slot g bi then None
      else
        let b = bullets g ! bi
        in Some (g\<lparr>bullets := (bullets g)[bi := b\<lparr>bullet_y := bullet_y b + scast (bullet_dir b)\<rparr>]\<rparr>))"

lemma for_loop_num_bullets_le:
  assumes "\<And>i s s'. body i s = Some s' \<Longrightarrow> unat (num_bullets (game s')) \<le> unat (num_bullets (game s))"
  shows "for_loop is body s = Some s' \<Longrightarrow> unat (num_bullets (game s')) \<le> unat (num_bullets (game s))"
proof (induction "is" arbitrary: s)
  case Nil
  then show ?case by simp
next
  case (Cons i rest)
  then obtain s1 where b: "body i s = Some s1" and r: "for_loop rest body s1 = Some s'"
    by (auto split: option.splits)
  from Cons.IH [OF r] assms [OF b] show ?case by simp
qed

lemma remove_bullet_num_bullets:
  assumes "remove_bullet bi g = Some g'"
  shows "unat (num_bullets g') < unat (num_bullets g)"
proof -
  from assms have l: "unat (num_bullets g - 1) < MAX_BULLETS"
    and g': "num_bullets g' = num_bullets g - 1"
    by (auto simp: remove_bullet_def bullet_slot_def Let_def split: if_splits)
  have "num_bullets g \<noteq> 0"
  proof
    assume "num_bullets g = 0"
    with l show False
      by (simp add: MAX_BULLETS_def unsigned_minus_1_eq_mask mask_eq_exp_minus_1)
  qed
  then show ?thesis using g' by (simp add: unat_minus_one unat_gt_0)
qed

lemma check_alien_num_bullets:
  "check_alien bi ai s = Some s' \<Longrightarrow> unat (num_bullets (game s')) \<le> unat (num_bullets (game s))"
  by (auto simp: check_alien_def Let_def split: if_splits option.splits
           dest!: remove_bullet_num_bullets)

lemma check_aliens_num_bullets:
  "check_aliens bi s = Some s' \<Longrightarrow> unat (num_bullets (game s')) \<le> unat (num_bullets (game s))"
  unfolding check_aliens_def
  by (rule for_loop_num_bullets_le [where body = "check_alien bi"]) (auto dest: check_alien_num_bullets)

lemma advance_bullet_num_bullets:
  "advance_bullet bi g = Some g' \<Longrightarrow> num_bullets g' = num_bullets g"
  by (auto simp: advance_bullet_def Let_def split: if_splits)

text \<open>
  The loop over the bullet pool. The counter \<open>bi\<close> is not advanced after a removal
  at the bounds test (\<^verbatim>\<open>continue\<close> of the outer loop); it is advanced after the scan
  of the aliens, whatever the scan did.
\<close>

function update_bullets :: "nat \<Rightarrow> State \<Rightarrow> State option" where
  "update_bullets bi s =
     (if bi < unat (num_bullets (game s))
      then
        (case advance_bullet bi (game s) of
           None \<Rightarrow> None
         | Some g \<Rightarrow>
             if bullet_y (bullets g ! bi) \<ge> game_height g \<or>
                bullet_y (bullets g ! bi) < sprite_height bullet_sprite
             then
               (case remove_bullet bi g of
                  None \<Rightarrow> None
                | Some g' \<Rightarrow> update_bullets bi (s\<lparr>game := g'\<rparr>))
             else
               (case check_aliens bi (s\<lparr>game := g\<rparr>) of
                  None \<Rightarrow> None
                | Some s' \<Rightarrow> update_bullets (bi + 1) s'))
      else Some s)"
  by pat_completeness auto
termination
proof (relation "measure (\<lambda>(bi, s). unat (num_bullets (game s)) - bi)")
  show "wf (measure (\<lambda>(bi, s). unat (num_bullets (game s)) - bi))" by simp
next
  fix bi s g g'
  assume "bi < unat (num_bullets (game s))" "advance_bullet bi (game s) = Some g"
    "remove_bullet bi g = Some g'"
  then show "((bi, s\<lparr>game := g'\<rparr>), bi, s) \<in> measure (\<lambda>(bi, s). unat (num_bullets (game s)) - bi)"
    by (auto dest!: remove_bullet_num_bullets advance_bullet_num_bullets)
next
  fix bi s g s'
  assume "bi < unat (num_bullets (game s))" "advance_bullet bi (game s) = Some g"
    "check_aliens bi (s\<lparr>game := g\<rparr>) = Some s'"
  then show "((bi + 1, s'), bi, s) \<in> measure (\<lambda>(bi, s). unat (num_bullets (game s)) - bi)"
    by (auto dest!: check_aliens_num_bullets advance_bullet_num_bullets)
qed

declare update_bullets.simps [simp del]

text \<open>Player movement: lines 748 to 759 of the source.\<close>

definition update_player :: "State \<Rightarrow> State" where
  "update_player s =
     (let pmd = 2 * move_dir s;
          s1 = s\<lparr>player_move_dir := pmd\<rparr>;
          g = game s1;
          p = player g
      in if pmd \<noteq> 0
         then
           if player_x p + sprite_width player_sprite + scast pmd \<ge> game_width g
           then s1\<lparr>game := g\<lparr>player := p\<lparr>player_x := game_width g - sprite_width player_sprite\<rparr>\<rparr>\<rparr>
           else if (ucast (player_x p) :: c_int) + pmd \<le>s 0
           then s1\<lparr>game := g\<lparr>player := p\<lparr>player_x := 0\<rparr>\<rparr>\<rparr>
           else s1\<lparr>game := g\<lparr>player := p\<lparr>player_x := player_x p + scast pmd\<rparr>\<rparr>\<rparr>
         else s1)"

text \<open>Firing: lines 761 to 768 of the source.\<close>

definition fire_bullet :: "State \<Rightarrow> State option" where
  "fire_bullet s =
     (let g = game s in
      if fire_pressed s \<and> num_bullets g < word_of_nat MAX_BULLETS
      then
        (if \<not> bullet_slot g (unat (num_bullets g)) then None
         else
           let b = \<lparr>bullet_x = player_x (player g) + sprite_width player_sprite div 2,
                    bullet_y = player_y (player g) + sprite_height player_sprite,
                    bullet_dir = 2\<rparr>
           in Some (s\<lparr>game := g\<lparr>bullets := (bullets g)[unat (num_bullets g) := b],
                                  num_bullets := num_bullets g + 1\<rparr>,
                       fire_pressed := False\<rparr>))
      else Some (s\<lparr>fire_pressed := False\<rparr>))"

text \<open>
  The simulation half of one iteration of the game loop (lines 687 to 768). The first
  half of the iteration (lines 643 to 685) draws into the frame buffer and reads the
  state only.
\<close>

definition update :: "State \<Rightarrow> State option" where
  "update s =
     (case update_animations s of
        None \<Rightarrow> None
      | Some s1 \<Rightarrow>
          (case update_death_counters s1 of
             None \<Rightarrow> None
           | Some s2 \<Rightarrow>
               (case update_bullets 0 s2 of
                  None \<Rightarrow> None
                | Some s3 \<Rightarrow> fire_bullet (update_player s3))))"

text \<open>
  The game loop. Each element of the list is the batch of key events that
  \<^verbatim>\<open>glfwPollEvents\<close> delivers at the end of one iteration; the list ends when the window
  is closed. The loop also stops once \<^verbatim>\<open>game_running\<close> is false.
\<close>

fun game_loop :: "(Key \<times> Action) list list \<Rightarrow> State \<Rightarrow> State option" where
  "game_loop [] s = Some s"
| "game_loop (events # rest) s =
     (if game_running s
      then (case update s of
              None \<Rightarrow> None
            | Some s' \<Rightarrow> game_loop rest (poll_events events s'))
      else Some s)"

section \<open>Rules for counted loops\<close>

lemma for_loop_append:
  "for_loop (xs @ ys) body s =
     (case for_loop xs body s of None \<Rightarrow> None | Some s' \<Rightarrow> for_loop ys body s')"
  by (induction xs arbitrary: s) (auto split: option.splits)

lemma for_loop_upt_invariant:
  assumes init: "I 0 s"
    and step: "\<And>i s. i < n \<Longrightarrow> I i s \<Longrightarrow> \<exists>s'. body i s = Some s' \<and> I (Suc i) s'"
  shows "\<exists>s'. for_loop [0..<n] body s = Some s' \<and> I n s'"
  using step
proof (induction n)
  case 0
  with init show ?case by simp
next
  case (Suc n)
  then obtain s1 where s1: "for_loop [0..<n] body s = Some s1" "I n s1"
    by (metis less_SucI)
  from Suc.prems [of n s1] s1 obtain s2 where "body n s1 = Some s2" "I (Suc n) s2"
    by auto
  with s1 show ?case by (simp add: for_loop_append)
qed

section \<open>The initial state\<close>

lemma unat_of_nat_size_t: "n < 2 ^ 64 \<Longrightarrow> unat (word_of_nat n :: size_t) = n"
  by (rule of_nat_inverse) simp_all

text \<open>The grid cell of row \<open>row\<close> and column \<open>col\<close>, in unbounded arithmetic.\<close>

definition grid_type :: "nat \<Rightarrow> nat" where
  "grid_type row = (5 - row) div 2 + 1"

definition grid_alien :: "nat \<Rightarrow> nat \<Rightarrow> Alien" where
  "grid_alien row col =
     \<lparr>alien_x = word_of_nat (16 * col + 20 +
                  (13 - unat (sprite_width (alien_sprites ! (2 * (grid_type row - 1))))) div 2),
      alien_y = word_of_nat (17 * row + 128),
      alien_type = word_of_nat (grid_type row)\<rparr>"

lemma row_cases: "row < 5 \<Longrightarrow> row = 0 \<or> row = 1 \<or> row = 2 \<or> row = 3 \<or> row = (4::nat)"
  by arith

lemma init_alien_grid:
  assumes "row < 5" "col < 11" "length as = 55"
  shows "init_alien row col as = Some (as[row * 11 + col := grid_alien row col])"
proof -
  have i: "unat (word_of_nat row * 11 + word_of_nat col :: size_t) = row * 11 + col"
  proof -
    have "(word_of_nat row * 11 + word_of_nat col :: size_t) = word_of_nat (row * 11 + col)"
      by simp
    moreover have "row * 11 + col < 2 ^ 64" using assms by simp
    ultimately show ?thesis by (simp only: unat_of_nat_size_t)
  qed
  have lt: "row * 11 + col < 55" using assms by simp
  from row_cases [OF assms(1)] show ?thesis
    unfolding init_alien_def Let_def i
    using lt assms(3)
    by (elim disjE) (simp_all add: grid_alien_def grid_type_def alien_sprites_def alien_death_sprite_def)
qed


lemma for_loop_fill:
  assumes body: "\<And>i as. i < n \<Longrightarrow> length as = n \<Longrightarrow> body i as = Some (as[i := v i])"
    and len: "length as = n"
  shows "for_loop [0..<n] body as = Some (map v [0..<n])"
proof -
  let ?I = "\<lambda>k as'. length as' = n \<and> (\<forall>j<k. as' ! j = v j)"
  have "\<exists>as'. for_loop [0..<n] body as = Some as' \<and> ?I n as'"
  proof (rule for_loop_upt_invariant [where I = ?I])
    show "?I 0 as" using len by simp
  next
    fix i as'
    assume "i < n" "?I i as'"
    then show "\<exists>s'. body i as' = Some s' \<and> ?I (Suc i) s'"
      using body [of i as'] by (auto simp: nth_list_update less_Suc_eq)
  qed
  then obtain as' where r: "for_loop [0..<n] body as = Some as'" and i: "?I n as'"
    by blast
  from i have "as' = map v [0..<n]" by (intro nth_equalityI) auto
  with r show ?thesis by simp
qed

text \<open>The first \<open>k\<close> cells of the array hold the grid, row by row.\<close>

definition grid_cells :: "nat \<Rightarrow> Alien list \<Rightarrow> bool" where
  "grid_cells k as \<longleftrightarrow> length as = 55 \<and> (\<forall>j<k. as ! j = grid_alien (j div 11) (j mod 11))"

lemma init_row_grid:
  assumes row: "row < 5" and pre: "grid_cells (11 * row) as"
  shows "\<exists>as'. for_loop [0..<11] (init_alien row) as = Some as' \<and> grid_cells (11 * Suc row) as'"
proof -
  let ?I = "\<lambda>col as'. grid_cells (11 * row + col) as'"
  have "\<exists>as'. for_loop [0..<11] (init_alien row) as = Some as' \<and> ?I 11 as'"
  proof (rule for_loop_upt_invariant [where I = ?I])
    show "?I 0 as" using pre by simp
  next
    fix col as'
    assume col: "col < 11" and i: "?I col as'"
    then have len: "length as' = 55" by (simp add: grid_cells_def)
    have "grid_cells (11 * row + Suc col) (as'[row * 11 + col := grid_alien row col])"
      unfolding grid_cells_def
    proof (intro conjI allI impI)
      show "length (as'[row * 11 + col := grid_alien row col]) = 55" using len by simp
    next
      fix j
      assume j: "j < 11 * row + Suc col"
      show "as'[row * 11 + col := grid_alien row col] ! j = grid_alien (j div 11) (j mod 11)"
      proof (cases "j = row * 11 + col")
        case True
        then show ?thesis using col row len by simp
      next
        case False
        with j have "j < 11 * row + col" by simp
        with i False show ?thesis by (simp add: grid_cells_def)
      qed
    qed
    with init_alien_grid [OF row col len]
    show "\<exists>s'. init_alien row col as' = Some s' \<and> ?I (Suc col) s'" by simp
  qed
  moreover have "11 * row + 11 = 11 * Suc row" by simp
  ultimately show ?thesis by (simp only:)
qed

lemma init_aliens_grid:
  assumes "length as = 55"
  shows "\<exists>as'. init_aliens as = Some as' \<and> grid_cells 55 as'"
proof -
  let ?I = "\<lambda>row as'. grid_cells (11 * row) as'"
  have "\<exists>as'. for_loop [0..<5] (\<lambda>yi. for_loop [0..<11] (init_alien yi)) as = Some as' \<and> ?I 5 as'"
  proof (rule for_loop_upt_invariant [where I = ?I])
    show "?I 0 as" using assms by (simp add: grid_cells_def)
  next
    fix row as'
    assume "row < 5" "?I row as'"
    then show "\<exists>s'. for_loop [0..<11] (init_alien row) as' = Some s' \<and> ?I (Suc row) s'"
      by (rule init_row_grid)
  qed
  then show ?thesis by (simp add: init_aliens_def)
qed


text \<open>What \<^verbatim>\<open>main\<close> has built when it enters the game loop.\<close>

definition initial_animation :: "nat \<Rightarrow> SpriteAnimation" where
  "initial_animation i =
     \<lparr>anim_loop = True, num_frames = 2, frame_duration = 10, anim_time = 0,
      frames = [alien_sprites ! (2 * i), alien_sprites ! (2 * i + 1)]\<rparr>"

definition initial_state :: "(nat \<Rightarrow> Bullet) \<Rightarrow> State" where
  "initial_state fresh_bullets =
     \<lparr>game = \<lparr>game_width = 224, game_height = 256, num_aliens = 55, num_bullets = 0,
               aliens = map (\<lambda>j. grid_alien (j div 11) (j mod 11)) [0..<55],
               player = \<lparr>player_x = 107, player_y = 32, player_life = 3\<rparr>,
               bullets = alloc MAX_BULLETS fresh_bullets\<rparr>,
      alien_animation = map initial_animation [0..<3],
      death_counters = map (\<lambda>i. 10) [0..<55],
      game_running = True, move_dir = 0, fire_pressed = False, score = 0,
      player_move_dir = 0\<rparr>"

lemma init_animations_loop:
  "for_loop [0..<3] init_animation (alloc 3 fresh) = Some (map initial_animation [0..<3])"
  by (rule for_loop_fill)
     (simp_all add: init_animation_def initial_animation_def alloc_def alien_sprites_def)

lemma init_death_counters_loop:
  "for_loop [0..<55] init_death_counter (alloc 55 fresh) = Some (map (\<lambda>i. 10) [0..<55])"
  by (rule for_loop_fill) (simp_all add: init_death_counter_def alloc_def)

lemma init_aliens_loop:
  "init_aliens (alloc 55 fresh) = Some (map (\<lambda>j. grid_alien (j div 11) (j mod 11)) [0..<55])"
proof -
  have "length (alloc 55 fresh) = 55" by (simp add: alloc_def)
  from init_aliens_grid [OF this] obtain as' where
    r: "init_aliens (alloc 55 fresh) = Some as'" and g: "grid_cells 55 as'"
    by blast
  from g have "as' = map (\<lambda>j. grid_alien (j div 11) (j mod 11)) [0..<55]"
    unfolding grid_cells_def by (intro nth_equalityI) auto
  with r show ?thesis by simp
qed

lemma main_init_initial_state:
  "main_init fresh_animations fresh_aliens fresh_bullets fresh_counters =
     Some (initial_state fresh_bullets)"
  by (simp add: main_init_def Let_def init_animations_loop init_aliens_loop
        init_death_counters_loop initial_state_def)

lemma grid_alien_fields:
  assumes "row < 5" "col < 11"
  shows "unat (alien_type (grid_alien row col)) = (5 - row) div 2 + 1"
    and "alien_type (grid_alien row col) \<in> {ALIEN_TYPE_A, ALIEN_TYPE_B, ALIEN_TYPE_C}"
    and "unat (alien_x (grid_alien row col)) =
           16 * col + 20 +
           (unat (sprite_width alien_death_sprite) -
            unat (sprite_width (alien_sprites ! (2 * ((5 - row) div 2 + 1 - 1))))) div 2"
    and "unat (alien_y (grid_alien row col)) = 17 * row + 128"
proof -
  have small: "\<And>n. n < 1000 \<Longrightarrow> unat (word_of_nat n :: size_t) = n"
    by (rule unat_of_nat_size_t) simp
  from row_cases [OF assms(1)]
  show "unat (alien_type (grid_alien row col)) = (5 - row) div 2 + 1"
    by (elim disjE) (simp_all add: grid_alien_def grid_type_def)
  from row_cases [OF assms(1)]
  show "alien_type (grid_alien row col) \<in> {ALIEN_TYPE_A, ALIEN_TYPE_B, ALIEN_TYPE_C}"
    by (elim disjE)
       (simp_all add: grid_alien_def grid_type_def ALIEN_TYPE_A_def ALIEN_TYPE_B_def ALIEN_TYPE_C_def)
  have "16 * col + 20 + (13 - unat (sprite_width (alien_sprites ! (2 * (grid_type row - 1))))) div 2 < 1000"
    using assms(2) by simp
  from small [OF this] row_cases [OF assms(1)]
  show "unat (alien_x (grid_alien row col)) =
           16 * col + 20 +
           (unat (sprite_width alien_death_sprite) -
            unat (sprite_width (alien_sprites ! (2 * ((5 - row) div 2 + 1 - 1))))) div 2"
    by (elim disjE) (simp_all add: grid_alien_def grid_type_def alien_death_sprite_def)
  have "17 * row + 128 < 1000" using assms(1) by simp
  from small [OF this]
  show "unat (alien_y (grid_alien row col)) = 17 * row + 128"
    by (simp add: grid_alien_def)
qed

text \<open>
  Claim C7. Initialisation completes, and for every row below 5 and column below 11 the
  alien at index \<open>row * 11 + col\<close> has type \<open>(5 - row) div 2 + 1\<close>, which is one of
  A, B and C and not DEAD, has \<open>x = 16 * col + 20 + (death width - width of its type's
  sprite) div 2\<close> and \<open>y = 17 * row + 128\<close>. The right-hand sides are natural numbers:
  nothing wraps around.
\<close>

theorem C7_alien_grid:
  "\<exists>s. main_init fresh_animations fresh_aliens fresh_bullets fresh_counters = Some s \<and>
       num_aliens (game s) = 55 \<and> length (aliens (game s)) = 55 \<and>
       (\<forall>row<5. \<forall>col<11.
          (let a = aliens (game s) ! (row * 11 + col) in
           unat (alien_type a) = (5 - row) div 2 + 1 \<and>
           alien_type a \<in> {ALIEN_TYPE_A, ALIEN_TYPE_B, ALIEN_TYPE_C} \<and>
           alien_type a \<noteq> ALIEN_DEAD \<and>
           unat (alien_x a) =
             16 * col + 20 +
             (unat (sprite_width alien_death_sprite) -
              unat (sprite_width (alien_sprites ! (2 * (unat (alien_type a) - 1))))) div 2 \<and>
           unat (alien_y a) = 17 * row + 128))"
proof -
  have cell: "aliens (game (initial_state fresh_bullets)) ! (row * 11 + col) = grid_alien row col"
    if "row < 5" "col < 11" for row col
  proof -
    from that have "row * 11 + col < 55" by simp
    then show ?thesis using that by (simp add: initial_state_def)
  qed
  have dead: "alien_type (grid_alien row col) \<noteq> ALIEN_DEAD" if "row < 5" "col < 11" for row col
    using grid_alien_fields(2) [OF that]
    by (auto simp: ALIEN_TYPE_A_def ALIEN_TYPE_B_def ALIEN_TYPE_C_def ALIEN_DEAD_def)
  have types: "alien_type (grid_alien row col) = ALIEN_TYPE_A \<or>
      alien_type (grid_alien row col) = ALIEN_TYPE_B \<or>
      alien_type (grid_alien row col) = ALIEN_TYPE_C" if "row < 5" "col < 11" for row col
    using grid_alien_fields(2) [OF that] by simp
  show ?thesis
    unfolding main_init_initial_state
    by (intro exI [of _ "initial_state fresh_bullets"] conjI allI impI)
       (simp_all add: cell Let_def grid_alien_fields(1,3,4) types dead, simp_all add: initial_state_def)
qed


theorem C7_alien_grid_witness:
  "\<exists>s. main_init (\<lambda>i. \<lparr>anim_loop = False, num_frames = 0, frame_duration = 0, anim_time = 0, frames = []\<rparr>)
            (\<lambda>i. \<lparr>alien_x = 0, alien_y = 0, alien_type = 0\<rparr>)
            (\<lambda>i. \<lparr>bullet_x = 0, bullet_y = 0, bullet_dir = 0\<rparr>)
            (\<lambda>i. 0) = Some s \<and>
       unat (alien_type (aliens (game s) ! 25)) = 2 \<and>
       alien_type (aliens (game s) ! 25) \<noteq> ALIEN_DEAD \<and>
       unat (alien_x (aliens (game s) ! 25)) = 69 \<and>
       unat (alien_y (aliens (game s) ! 25)) = 162"
proof -
  from C7_alien_grid obtain s where
    s: "main_init (\<lambda>i. \<lparr>anim_loop = False, num_frames = 0, frame_duration = 0, anim_time = 0, frames = []\<rparr>)
            (\<lambda>i. \<lparr>alien_x = 0, alien_y = 0, alien_type = 0\<rparr>)
            (\<lambda>i. \<lparr>bullet_x = 0, bullet_y = 0, bullet_dir = 0\<rparr>)
            (\<lambda>i. 0) = Some s"
    and cells: "\<forall>row<5. \<forall>col<11.
          (let a = aliens (game s) ! (row * 11 + col) in
           unat (alien_type a) = (5 - row) div 2 + 1 \<and>
           alien_type a \<in> {ALIEN_TYPE_A, ALIEN_TYPE_B, ALIEN_TYPE_C} \<and>
           alien_type a \<noteq> ALIEN_DEAD \<and>
           unat (alien_x a) =
             16 * col + 20 +
             (unat (sprite_width alien_death_sprite) -
              unat (sprite_width (alien_sprites ! (2 * (unat (alien_type a) - 1))))) div 2 \<and>
           unat (alien_y a) = 17 * row + 128)"
    by blast
  have "(2::nat) < 5" "(3::nat) < 11" by simp_all
  with cells have "let a = aliens (game s) ! (2 * 11 + 3) in
           unat (alien_type a) = (5 - 2) div 2 + 1 \<and>
           alien_type a \<in> {ALIEN_TYPE_A, ALIEN_TYPE_B, ALIEN_TYPE_C} \<and>
           alien_type a \<noteq> ALIEN_DEAD \<and>
           unat (alien_x a) =
             16 * 3 + 20 +
             (unat (sprite_width alien_death_sprite) -
              unat (sprite_width (alien_sprites ! (2 * (unat (alien_type a) - 1))))) div 2 \<and>
           unat (alien_y a) = 17 * 2 + 128"
    by blast
  then have "unat (alien_type (aliens (game s) ! 25)) = 2 \<and>
       alien_type (aliens (game s) ! 25) \<noteq> ALIEN_DEAD \<and>
       unat (alien_x (aliens (game s) ! 25)) = 69 \<and>
       unat (alien_y (aliens (game s) ! 25)) = 162"
    by (simp add: Let_def alien_death_sprite_def alien_sprites_def)
  with s show ?thesis by blast
qed


section \<open>The states of a run\<close>

text \<open>
  What holds of every state the game loop reaches. The animations keep the frames and
  durations they were given and a time below 20; an alien that is not dead is still the
  one the grid was initialised with, its death counter still 10; the pool holds at most
  \<open>MAX_BULLETS\<close> bullets; the player is inside the buffer.
\<close>

definition anim_ok :: "nat \<Rightarrow> SpriteAnimation \<Rightarrow> bool" where
  "anim_ok i a \<longleftrightarrow>
     num_frames a = 2 \<and> frame_duration a = 10 \<and> anim_time a < 20 \<and>
     frames a = [alien_sprites ! (2 * i), alien_sprites ! (2 * i + 1)]"

definition wf_state :: "State \<Rightarrow> bool" where
  "wf_state s \<longleftrightarrow>
     game_width (game s) = 224 \<and> game_height (game s) = 256 \<and>
     num_aliens (game s) = 55 \<and> length (aliens (game s)) = 55 \<and>
     length (death_counters s) = 55 \<and>
     length (bullets (game s)) = MAX_BULLETS \<and>
     unat (num_bullets (game s)) \<le> MAX_BULLETS \<and>
     length (alien_animation s) = 3 \<and>
     (\<forall>i<3. anim_ok i (alien_animation s ! i)) \<and>
     (\<forall>j<55. alien_type (aliens (game s) ! j) = ALIEN_DEAD \<or>
              aliens (game s) ! j = grid_alien (j div 11) (j mod 11) \<and>
              death_counters s ! j = 10) \<and>
     player_x (player (game s)) \<le> 213"

section \<open>A bullet overlaps at most one alien of the grid\<close>

lemma box_general:
  fixes bx by' xb yb w :: size_t
  assumes "xb \<le> 1000" "w \<le> 12" "yb \<le> 1000"
    and "bx < xb + w" "bx + 1 > xb" "by' < yb + 8" "by' + 3 > yb"
  shows "unat xb \<le> unat bx \<and> unat bx < unat xb + unat w \<and>
         unat yb < unat by' + 3 \<and> unat by' < unat yb + 8"
  using assms by unat_arith

lemma frame_index: 
  assumes "(t :: size_t) < 20"
  shows "unat (t div 10) = 0 \<or> unat (t div 10) = 1"
proof -
  from assms have "unat t < 20" by (simp add: word_less_nat_alt)
  then have "unat t div 10 < 2" by simp
  then show ?thesis by (simp add: unat_div less_2_cases_iff)
qed

text \<open>The frame a grid alien shows, in a state whose animations are as initialised.\<close>

lemma current_frame_grid:
  assumes anims: "length (alien_animation s) = 3" "\<forall>i<3. anim_ok i (alien_animation s ! i)"
    and rc: "row < 5" "col < 11"
  shows "\<exists>fr. current_frame_sprite s (grid_alien row col) = Some fr \<and>
           sprite_height fr = 8 \<and> sprite_width fr \<le> 12 \<and>
           16 * col + 20 \<le> unat (alien_x (grid_alien row col)) \<and>
           unat (alien_x (grid_alien row col)) + unat (sprite_width fr) \<le> 16 * col + 32"
proof -
  have small: "\<And>n. n < 1000 \<Longrightarrow> unat (word_of_nat n :: size_t) = n"
    by (rule unat_of_nat_size_t) simp
  have x: "unat (alien_x (grid_alien row col)) =
      16 * col + 20 + (13 - unat (sprite_width (alien_sprites ! (2 * (grid_type row - 1))))) div 2"
    using grid_alien_fields(3) [OF rc] by (simp add: grid_type_def alien_death_sprite_def)
  have ok: "anim_ok i (alien_animation s ! i)" if "i < 3" for i using anims that by simp
  from row_cases [OF rc(1)] show ?thesis
  proof (elim disjE)
    assume r: "row = 0"
    from ok [of 2] frame_index [of "anim_time (alien_animation s ! 2)"] show ?thesis
      using anims(1) x
      by (auto simp: r current_frame_sprite_def Let_def grid_alien_def grid_type_def anim_ok_def
            alien_sprites_def)
  next
    assume r: "row = 1"
    from ok [of 2] frame_index [of "anim_time (alien_animation s ! 2)"] show ?thesis
      using anims(1) x
      by (auto simp: r current_frame_sprite_def Let_def grid_alien_def grid_type_def anim_ok_def
            alien_sprites_def)
  next
    assume r: "row = 2"
    from ok [of 1] frame_index [of "anim_time (alien_animation s ! 1)"] show ?thesis
      using anims(1) x
      by (auto simp: r current_frame_sprite_def Let_def grid_alien_def grid_type_def anim_ok_def
            alien_sprites_def)
  next
    assume r: "row = 3"
    from ok [of 1] frame_index [of "anim_time (alien_animation s ! 1)"] show ?thesis
      using anims(1) x
      by (auto simp: r current_frame_sprite_def Let_def grid_alien_def grid_type_def anim_ok_def
            alien_sprites_def)
  next
    assume r: "row = 4"
    from ok [of 0] frame_index [of "anim_time (alien_animation s ! 0)"] show ?thesis
      using anims(1) x
      by (auto simp: r current_frame_sprite_def Let_def grid_alien_def grid_type_def anim_ok_def
            alien_sprites_def)
  qed
qed


lemma overlap_grid_box:
  assumes anims: "length (alien_animation s) = 3" "\<forall>i<3. anim_ok i (alien_animation s ! i)"
    and rc: "row < 5" "col < 11"
    and fr: "current_frame_sprite s (grid_alien row col) = Some fr"
    and ov: "sprite_overlap_check bullet_sprite bx by' fr
               (alien_x (grid_alien row col)) (alien_y (grid_alien row col))"
  shows "16 * col + 20 \<le> unat bx \<and> unat bx < 16 * col + 32 \<and>
         17 * row + 126 \<le> unat by' \<and> unat by' < 17 * row + 136"
proof -
  let ?xb = "alien_x (grid_alien row col)"
  let ?yb = "alien_y (grid_alien row col)"
  from current_frame_grid [OF anims rc] fr
  have h: "sprite_height fr = 8" and w: "sprite_width fr \<le> 12"
    and x1: "16 * col + 20 \<le> unat ?xb"
    and x2: "unat ?xb + unat (sprite_width fr) \<le> 16 * col + 32"
    by auto
  have y: "unat ?yb = 17 * row + 128" by (rule grid_alien_fields(4) [OF rc])
  have xb: "?xb \<le> 1000" using x2 rc by (simp add: word_le_nat_alt)
  have yb: "?yb \<le> 1000" using y rc by (simp add: word_le_nat_alt)
  from ov have "bx < ?xb + sprite_width fr" "bx + 1 > ?xb" "by' < ?yb + 8" "by' + 3 > ?yb"
    by (simp_all add: sprite_overlap_check_def bullet_sprite_def h split: if_splits)
  from box_general [OF xb w yb this] x1 x2 y show ?thesis by simp
qed

lemma overlap_grid_unique:
  assumes anims: "length (alien_animation s) = 3" "\<forall>i<3. anim_ok i (alien_animation s ! i)"
    and i: "i < 55" and j: "j < 55"
    and fi: "current_frame_sprite s (grid_alien (i div 11) (i mod 11)) = Some fi"
    and oi: "sprite_overlap_check bullet_sprite bx by' fi
               (alien_x (grid_alien (i div 11) (i mod 11))) (alien_y (grid_alien (i div 11) (i mod 11)))"
    and fj: "current_frame_sprite s (grid_alien (j div 11) (j mod 11)) = Some fj"
    and oj: "sprite_overlap_check bullet_sprite bx by' fj
               (alien_x (grid_alien (j div 11) (j mod 11))) (alien_y (grid_alien (j div 11) (j mod 11)))"
  shows "i = j"
proof -
  have ri: "i div 11 < 5" "i mod 11 < 11" using i by simp_all
  have rj: "j div 11 < 5" "j mod 11 < 11" using j by simp_all
  from overlap_grid_box [OF anims ri fi oi] overlap_grid_box [OF anims rj fj oj]
  have "i mod 11 = j mod 11" "i div 11 = j div 11" by arith+
  then show ?thesis by (metis div_mult_mod_eq)
qed

text \<open>What a hit does to the state, written out.\<close>

definition hit_state :: "nat \<Rightarrow> nat \<Rightarrow> Sprite \<Rightarrow> State \<Rightarrow> State" where
  "hit_state bi ai alien_sprite s =
     (let g = game s; alien = aliens g ! ai
      in s\<lparr>game := g\<lparr>aliens := (aliens g)[ai := alien\<lparr>alien_type := ALIEN_DEAD,
                          alien_x := alien_x alien -
                            (sprite_width alien_death_sprite - sprite_width alien_sprite) div 2\<rparr>],
                      bullets := (bullets g)[bi := bullets g ! (unat (num_bullets g) - 1)],
                      num_bullets := num_bullets g - 1\<rparr>,
           score := score s + scast (10 * (4 - ucast (alien_type alien)) :: c_int)\<rparr>)"

lemma check_alien_dead:
  assumes "ai < length (aliens (game s))" "alien_type (aliens (game s) ! ai) = ALIEN_DEAD"
  shows "check_alien bi ai s = Some s"
  using assms by (simp add: check_alien_def)

lemma check_alien_miss:
  assumes "ai < length (aliens (game s))" "alien_type (aliens (game s) ! ai) \<noteq> ALIEN_DEAD"
    and "current_frame_sprite s (aliens (game s) ! ai) = Some fr"
    and "bullet_slot (game s) bi"
    and "\<not> sprite_overlap_check bullet_sprite
             (bullet_x (bullets (game s) ! bi)) (bullet_y (bullets (game s) ! bi))
             fr (alien_x (aliens (game s) ! ai)) (alien_y (aliens (game s) ! ai))"
  shows "check_alien bi ai s = Some s"
  using assms by (simp add: check_alien_def)

lemma check_alien_hit:
  assumes "ai < length (aliens (game s))" "alien_type (aliens (game s) ! ai) \<noteq> ALIEN_DEAD"
    and "current_frame_sprite s (aliens (game s) ! ai) = Some fr"
    and "bullet_slot (game s) bi"
    and "sprite_overlap_check bullet_sprite
             (bullet_x (bullets (game s) ! bi)) (bullet_y (bullets (game s) ! bi))
             fr (alien_x (aliens (game s) ! ai)) (alien_y (aliens (game s) ! ai))"
    and n: "0 < unat (num_bullets (game s))" "unat (num_bullets (game s)) \<le> MAX_BULLETS"
    and len: "length (bullets (game s)) = MAX_BULLETS"
  shows "check_alien bi ai s = Some (hit_state bi ai fr s)"
proof -
  have "unat (num_bullets (game s) - 1) = unat (num_bullets (game s)) - 1"
    using n(1) by (simp add: unat_minus_one unat_gt_0)
  then show ?thesis
    using assms
    by (simp add: check_alien_def remove_bullet_def bullet_slot_def hit_state_def Let_def)
qed


section \<open>The bullet loop completes\<close>

text \<open>
  \<open>hits s bi aj\<close>: the bullet in slot \<open>bi\<close> overlaps the frame alien \<open>aj\<close> shows.
  The invariant of the scan over the aliens: either the slot is still inside the pool,
  or (after the last bullet of the pool was removed from this very slot) what the slot
  still holds overlaps none of the aliens left to scan.
\<close>

definition hits :: "State \<Rightarrow> nat \<Rightarrow> nat \<Rightarrow> bool" where
  "hits s bi aj \<longleftrightarrow>
     (\<exists>fr. current_frame_sprite s (aliens (game s) ! aj) = Some fr \<and>
           sprite_overlap_check bullet_sprite
             (bullet_x (bullets (game s) ! bi)) (bullet_y (bullets (game s) ! bi))
             fr (alien_x (aliens (game s) ! aj)) (alien_y (aliens (game s) ! aj)))"

definition scan_inv :: "nat \<Rightarrow> nat \<Rightarrow> State \<Rightarrow> bool" where
  "scan_inv bi ai s \<longleftrightarrow>
     wf_state s \<and>
     (bi < unat (num_bullets (game s)) \<or>
      (\<forall>aj. ai \<le> aj \<and> aj < 55 \<and> alien_type (aliens (game s) ! aj) \<noteq> ALIEN_DEAD
            \<longrightarrow> \<not> hits s bi aj))"

lemma wf_state_hit:
  assumes wf: "wf_state s" and ai: "ai < 55" and n: "0 < unat (num_bullets (game s))"
  shows "wf_state (hit_state bi ai fr s)"
proof -
  have "unat (num_bullets (game s) - 1) = unat (num_bullets (game s)) - 1"
    using n by (simp add: unat_minus_one unat_gt_0)
  then show ?thesis
    using wf ai
    by (auto simp: wf_state_def hit_state_def Let_def nth_list_update)
qed

lemma check_alien_scan:
  assumes bi: "bi < MAX_BULLETS" and ai: "ai < 55" and inv: "scan_inv bi ai s"
  shows "\<exists>s'. check_alien bi ai s = Some s' \<and> scan_inv bi (Suc ai) s'"
proof -
  from inv have wf: "wf_state s" by (simp add: scan_inv_def)
  then have len: "length (aliens (game s)) = 55" "length (bullets (game s)) = MAX_BULLETS"
    and anims: "length (alien_animation s) = 3" "\<forall>i<3. anim_ok i (alien_animation s ! i)"
    and nb: "unat (num_bullets (game s)) \<le> MAX_BULLETS"
    by (simp_all add: wf_state_def)
  have slot: "bullet_slot (game s) bi" using bi len by (simp add: bullet_slot_def)
  have ail: "ai < length (aliens (game s))" using ai len by simp
  have weaken: "scan_inv bi (Suc ai) s" using inv by (auto simp: scan_inv_def)
  let ?alien = "aliens (game s) ! ai"
  show ?thesis
  proof (cases "alien_type ?alien = ALIEN_DEAD")
    case True
    with check_alien_dead [OF ail] weaken show ?thesis by simp
  next
    case False
    with wf ai have grid: "?alien = grid_alien (ai div 11) (ai mod 11)"
      by (auto simp: wf_state_def)
    have rc: "ai div 11 < 5" "ai mod 11 < 11" using ai by simp_all
    from current_frame_grid [OF anims rc] grid obtain fr where
      fr: "current_frame_sprite s ?alien = Some fr" by auto
    let ?ov = "sprite_overlap_check bullet_sprite
             (bullet_x (bullets (game s) ! bi)) (bullet_y (bullets (game s) ! bi))
             fr (alien_x ?alien) (alien_y ?alien)"
    show ?thesis
    proof (cases ?ov)
      case miss: False
      from check_alien_miss [OF ail False fr slot miss] weaken show ?thesis by simp
    next
      case hit: True
      then have h: "hits s bi ai" using fr by (auto simp: hits_def)
      with inv ai False have lt: "bi < unat (num_bullets (game s))"
        by (auto simp: scan_inv_def)
      then have pos: "0 < unat (num_bullets (game s))" by simp
      let ?s' = "hit_state bi ai fr s"
      have res: "check_alien bi ai s = Some ?s'"
        by (rule check_alien_hit [OF ail False fr slot hit pos nb len(2)])
      have wf': "wf_state ?s'" by (rule wf_state_hit [OF wf ai pos])
      have nb': "unat (num_bullets (game ?s')) = unat (num_bullets (game s)) - 1"
        using pos by (simp add: hit_state_def Let_def unat_minus_one unat_gt_0)
      have "scan_inv bi (Suc ai) ?s'"
      proof (cases "bi < unat (num_bullets (game s)) - 1")
        case True
        with wf' nb' show ?thesis by (simp add: scan_inv_def)
      next
        case last: False
        with lt have eq: "unat (num_bullets (game s)) - 1 = bi" by simp
        have same_bullet: "bullets (game ?s') ! bi = bullets (game s) ! bi"
          using eq len bi by (simp add: hit_state_def Let_def)
        have frames_same: "\<And>a. current_frame_sprite ?s' a = current_frame_sprite s a"
          by (simp add: current_frame_sprite_def hit_state_def Let_def)
        have "\<not> hits ?s' bi aj"
          if aj: "Suc ai \<le> aj" "aj < 55" "alien_type (aliens (game ?s') ! aj) \<noteq> ALIEN_DEAD" for aj
        proof
          assume hj: "hits ?s' bi aj"
          from aj have ne: "aj \<noteq> ai" by simp
          then have same: "aliens (game ?s') ! aj = aliens (game s) ! aj"
            by (simp add: hit_state_def Let_def)
          with aj wf have gj: "aliens (game s) ! aj = grid_alien (aj div 11) (aj mod 11)"
            by (auto simp: wf_state_def)
          from hj obtain fj where
            fj: "current_frame_sprite s (grid_alien (aj div 11) (aj mod 11)) = Some fj"
            and oj: "sprite_overlap_check bullet_sprite
               (bullet_x (bullets (game s) ! bi)) (bullet_y (bullets (game s) ! bi)) fj
               (alien_x (grid_alien (aj div 11) (aj mod 11)))
               (alien_y (grid_alien (aj div 11) (aj mod 11)))"
            unfolding hits_def same same_bullet frames_same gj by blast
          from fr hit have fi: "current_frame_sprite s (grid_alien (ai div 11) (ai mod 11)) = Some fr"
            and oi: "sprite_overlap_check bullet_sprite
               (bullet_x (bullets (game s) ! bi)) (bullet_y (bullets (game s) ! bi)) fr
               (alien_x (grid_alien (ai div 11) (ai mod 11)))
               (alien_y (grid_alien (ai div 11) (ai mod 11)))"
            unfolding grid by simp_all
          from overlap_grid_unique [OF anims ai aj(2) fi oi fj oj] ne show False by simp
        qed
        with wf' show ?thesis by (auto simp: scan_inv_def)
      qed
      with res show ?thesis by simp
    qed
  qed
qed

lemma check_aliens_total:
  assumes wf: "wf_state s" and bi: "bi < unat (num_bullets (game s))"
  shows "\<exists>s'. check_aliens bi s = Some s' \<and> wf_state s'"
proof -
  from wf bi have b: "bi < MAX_BULLETS" and n: "unat (num_aliens (game s)) = 55"
    by (simp_all add: wf_state_def)
  have "\<exists>s'. for_loop [0..<55] (check_alien bi) s = Some s' \<and> scan_inv bi 55 s'"
  proof (rule for_loop_upt_invariant [where I = "scan_inv bi"])
    show "scan_inv bi 0 s" using wf bi by (simp add: scan_inv_def)
  next
    fix ai s1
    assume "ai < 55" "scan_inv bi ai s1"
    then show "\<exists>s'. check_alien bi ai s1 = Some s' \<and> scan_inv bi (Suc ai) s'"
      by (rule check_alien_scan [OF b])
  qed
  then show ?thesis by (auto simp: check_aliens_def n scan_inv_def)
qed


lemma wf_state_advance:
  assumes "wf_state s" "advance_bullet bi (game s) = Some g"
  shows "wf_state (s\<lparr>game := g\<rparr>)" "num_bullets g = num_bullets (game s)"
  using assms by (auto simp: wf_state_def advance_bullet_def Let_def split: if_splits)

lemma wf_state_remove:
  assumes wf: "wf_state (s\<lparr>game := g\<rparr>)" and r: "remove_bullet bi g = Some g'"
  shows "wf_state (s\<lparr>game := g'\<rparr>)"
proof -
  from remove_bullet_num_bullets [OF r] wf have "unat (num_bullets g') \<le> MAX_BULLETS"
    by (simp add: wf_state_def)
  with wf r show ?thesis
    by (auto simp: wf_state_def remove_bullet_def Let_def split: if_splits)
qed

lemma advance_bullet_total:
  assumes "wf_state s" "bi < unat (num_bullets (game s))"
  shows "\<exists>g. advance_bullet bi (game s) = Some g"
  using assms by (simp add: wf_state_def advance_bullet_def bullet_slot_def Let_def)

lemma remove_bullet_total:
  assumes wf: "wf_state (s\<lparr>game := g\<rparr>)" and bi: "bi < unat (num_bullets g)"
  shows "\<exists>g'. remove_bullet bi g = Some g'"
proof -
  from bi have "unat (num_bullets g - 1) = unat (num_bullets g) - 1"
    by (simp add: unat_minus_one unat_gt_0 [symmetric])
  moreover from wf have "unat (num_bullets g) \<le> MAX_BULLETS" "length (bullets g) = MAX_BULLETS"
    by (simp_all add: wf_state_def)
  ultimately show ?thesis
    using bi by (simp add: remove_bullet_def bullet_slot_def Let_def)
qed

lemma update_bullets_total:
  "wf_state s \<Longrightarrow> \<exists>s'. update_bullets bi s = Some s' \<and> wf_state s'"
proof (induction bi s rule: update_bullets.induct)
  case (1 bi s)
  note wf = \<open>wf_state s\<close>
  show ?case
  proof (cases "bi < unat (num_bullets (game s))")
    case False
    with wf show ?thesis by (simp add: update_bullets.simps)
  next
    case lt: True
    from advance_bullet_total [OF wf lt] obtain g where g: "advance_bullet bi (game s) = Some g"
      by blast
    note wfg = wf_state_advance [OF wf g]
    show ?thesis
    proof (cases "bullet_y (bullets g ! bi) \<ge> game_height g \<or>
                  bullet_y (bullets g ! bi) < sprite_height bullet_sprite")
      case out: True
      from lt wfg(2) have "bi < unat (num_bullets g)" by simp
      from remove_bullet_total [OF wfg(1) this] obtain g' where g': "remove_bullet bi g = Some g'"
        by blast
      from "1.IH"(1) [OF lt g out g' wf_state_remove [OF wfg(1) g']]
      show ?thesis using lt g out g' by (simp add: update_bullets.simps [of bi s])
    next
      case inside: False
      from lt wfg(2) have "bi < unat (num_bullets (game (s\<lparr>game := g\<rparr>)))" by simp
      from check_aliens_total [OF wfg(1) this] obtain s2 where
        s2: "check_aliens bi (s\<lparr>game := g\<rparr>) = Some s2" "wf_state s2"
        by blast
      from "1.IH"(2) [OF lt g inside s2]
      show ?thesis using lt g inside s2 by (simp add: update_bullets.simps [of bi s])
    qed
  qed
qed


section \<open>What each phase of the simulation step leaves unchanged\<close>

lemma for_loop_preserves:
  assumes "\<And>i s s'. body i s = Some s' \<Longrightarrow> f s' = f s"
  shows "for_loop is body s = Some s' \<Longrightarrow> f s' = f s"
proof (induction "is" arbitrary: s)
  case Nil
  then show ?case by simp
next
  case (Cons i rest)
  then obtain s1 where b: "body i s = Some s1" and r: "for_loop rest body s1 = Some s'"
    by (auto split: option.splits)
  from Cons.IH [OF r] assms [OF b] show ?case by simp
qed

lemma for_loop_rel:
  assumes refl: "\<And>s. R s s" and trans: "\<And>s t u. R s t \<Longrightarrow> R t u \<Longrightarrow> R s u"
    and body: "\<And>i s s'. body i s = Some s' \<Longrightarrow> R s s'"
  shows "for_loop is body s = Some s' \<Longrightarrow> R s s'"
proof (induction "is" arbitrary: s)
  case Nil
  then show ?case by (simp add: refl)
next
  case (Cons i rest)
  then obtain s1 where b: "body i s = Some s1" and r: "for_loop rest body s1 = Some s'"
    by (auto split: option.splits)
  from trans [OF body [OF b] Cons.IH [OF r]] show ?case .
qed

text \<open>
  The bullet loop writes the pool, the score and the aliens it hits; a dead alien is
  never written.
\<close>

definition bullets_frame :: "State \<Rightarrow> State \<Rightarrow> bool" where
  "bullets_frame s s' \<longleftrightarrow>
     player (game s') = player (game s) \<and>
     game_width (game s') = game_width (game s) \<and>
     game_height (game s') = game_height (game s) \<and>
     num_aliens (game s') = num_aliens (game s) \<and>
     alien_animation s' = alien_animation s \<and>
     death_counters s' = death_counters s \<and>
     game_running s' = game_running s \<and>
     move_dir s' = move_dir s \<and>
     fire_pressed s' = fire_pressed s \<and>
     player_move_dir s' = player_move_dir s \<and>
     length (aliens (game s')) = length (aliens (game s)) \<and>
     (\<forall>j. alien_type (aliens (game s) ! j) = ALIEN_DEAD \<longrightarrow>
          aliens (game s') ! j = aliens (game s) ! j)"

lemma bullets_frame_refl: "bullets_frame s s"
  by (simp add: bullets_frame_def)

lemma bullets_frame_trans: "bullets_frame s t \<Longrightarrow> bullets_frame t u \<Longrightarrow> bullets_frame s u"
  by (simp add: bullets_frame_def)

lemma check_alien_frame: "check_alien bi ai s = Some s' \<Longrightarrow> bullets_frame s s'"
  by (auto simp: check_alien_def remove_bullet_def bullets_frame_def Let_def nth_list_update
           split: if_splits option.splits)

lemma check_aliens_frame: "check_aliens bi s = Some s' \<Longrightarrow> bullets_frame s s'"
  unfolding check_aliens_def
  by (rule for_loop_rel [where R = bullets_frame and body = "check_alien bi"])
     (auto intro: bullets_frame_refl bullets_frame_trans check_alien_frame)

lemma advance_bullet_frame: "advance_bullet bi (game s) = Some g \<Longrightarrow> bullets_frame s (s\<lparr>game := g\<rparr>)"
  by (auto simp: advance_bullet_def bullets_frame_def Let_def split: if_splits)

lemma remove_bullet_frame:
  "remove_bullet bi g = Some g' \<Longrightarrow> bullets_frame (s\<lparr>game := g\<rparr>) (s\<lparr>game := g'\<rparr>)"
  by (auto simp: remove_bullet_def bullets_frame_def Let_def split: if_splits)

lemma update_bullets_frame: "update_bullets bi s = Some s' \<Longrightarrow> bullets_frame s s'"
proof (induction bi s rule: update_bullets.induct)
  case (1 bi s)
  show ?case
  proof (cases "bi < unat (num_bullets (game s))")
    case False
    with "1.prems" show ?thesis by (simp add: update_bullets.simps [of bi s] bullets_frame_refl)
  next
    case lt: True
    with "1.prems" obtain g where g: "advance_bullet bi (game s) = Some g"
      by (auto simp: update_bullets.simps [of bi s] split: option.splits)
    note fg = advance_bullet_frame [OF g]
    show ?thesis
    proof (cases "bullet_y (bullets g ! bi) \<ge> game_height g \<or>
                  bullet_y (bullets g ! bi) < sprite_height bullet_sprite")
      case out: True
      with "1.prems" lt g obtain g' where g': "remove_bullet bi g = Some g'"
        and rest: "update_bullets bi (s\<lparr>game := g'\<rparr>) = Some s'"
        by (auto simp: update_bullets.simps [of bi s] split: option.splits)
      from "1.IH"(1) [OF lt g out g' rest] remove_bullet_frame [OF g', of s] fg
      show ?thesis by (blast intro: bullets_frame_trans)
    next
      case inside: False
      with "1.prems" lt g obtain s2 where s2: "check_aliens bi (s\<lparr>game := g\<rparr>) = Some s2"
        and rest: "update_bullets (bi + 1) s2 = Some s'"
        by (auto simp: update_bullets.simps [of bi s] split: option.splits)
      from "1.IH"(2) [OF lt g inside s2 rest] check_aliens_frame [OF s2] fg
      show ?thesis by (blast intro: bullets_frame_trans)
    qed
  qed
qed


text \<open>One step of an animation clock, as the loop body computes it.\<close>

definition tick_animation :: "SpriteAnimation \<Rightarrow> SpriteAnimation" where
  "tick_animation a =
     (if anim_time a + 1 = num_frames a * frame_duration a
      then a\<lparr>anim_time := 0\<rparr> else a\<lparr>anim_time := anim_time a + 1\<rparr>)"

lemma update_animations_eq:
  assumes "length (alien_animation s) = 3"
  shows "update_animations s = Some (s\<lparr>alien_animation := map tick_animation (alien_animation s)\<rparr>)"
proof -
  from assms obtain a0 a1 a2 where as: "alien_animation s = [a0, a1, a2]"
    by (auto simp: length_Suc_conv numeral_3_eq_3)
  have upt: "[0..<3] = [0, 1, 2]" by (simp add: upt_rec)
  show ?thesis
    by (simp add: update_animations_def upt animation_step_def as Let_def tick_animation_def)
qed

lemma update_animations_None:
  assumes "length (alien_animation s) < 3"
  shows "update_animations s = None"
proof -
  have upt: "[0..<3] = [0, 1, 2]" by (simp add: upt_rec)
  from assms have "alien_animation s = [] \<or> (\<exists>a0. alien_animation s = [a0]) \<or>
      (\<exists>a0 a1. alien_animation s = [a0, a1])"
    by (cases "alien_animation s"; cases "tl (alien_animation s)"; cases "tl (tl (alien_animation s))")
       auto
  then show ?thesis
    by (auto simp: update_animations_def upt animation_step_def Let_def)
qed


text \<open>The death counter of alien \<open>i\<close> after the decrement loop.\<close>

definition next_counter :: "State \<Rightarrow> nat \<Rightarrow> uint8_t" where
  "next_counter s i =
     (if alien_type (aliens (game s) ! i) = ALIEN_DEAD \<and> death_counters s ! i \<noteq> 0
      then death_counters s ! i - 1 else death_counters s ! i)"

lemma update_death_counters_eq:
  assumes n: "unat (num_aliens (game s)) = n"
    and la: "length (aliens (game s)) = n" and ld: "length (death_counters s) = n"
  shows "update_death_counters s = Some (s\<lparr>death_counters := map (next_counter s) [0..<n]\<rparr>)"
proof -
  let ?I = "\<lambda>k s'. s' = s\<lparr>death_counters := death_counters s'\<rparr> \<and>
              length (death_counters s') = n \<and>
              (\<forall>j<k. death_counters s' ! j = next_counter s j) \<and>
              (\<forall>j. k \<le> j \<longrightarrow> death_counters s' ! j = death_counters s ! j)"
  have "\<exists>s'. for_loop [0..<n] death_counter_step s = Some s' \<and> ?I n s'"
  proof (rule for_loop_upt_invariant [where I = ?I])
    show "?I 0 s" using ld by simp
  next
    fix i s1
    assume i: "i < n" and inv: "?I i s1"
    from inv have g: "game s1 = game s"
      by (metis State.select_convs(1) State.surjective State.update_convs(3))
    let ?d = "death_counters s1"
    let ?s2 = "s1\<lparr>death_counters := ?d[i := next_counter s i]\<rparr>"
    from inv have cur: "?d ! i = death_counters s ! i" and len: "length ?d = n" by simp_all
    have keep: "s1\<lparr>death_counters := ?d[i := ?d ! i]\<rparr> = s1" by simp
    have step: "death_counter_step i s1 = Some ?s2"
    proof (cases "alien_type (aliens (game s) ! i) = ALIEN_DEAD \<and> death_counters s ! i \<noteq> 0")
      case True
      then show ?thesis
        using i la len cur by (simp add: death_counter_step_def g next_counter_def)
    next
      case False
      then have "next_counter s i = ?d ! i" using cur by (simp add: next_counter_def)
      with keep have "?s2 = s1" by simp
      moreover have "death_counter_step i s1 = Some s1"
        using False i la len cur by (auto simp: death_counter_step_def g)
      ultimately show ?thesis by simp
    qed
    have "?I (Suc i) ?s2"
    proof (intro conjI allI impI)
      from inv have "s1 = s\<lparr>death_counters := ?d\<rparr>" by simp
      then show "?s2 = s\<lparr>death_counters := death_counters ?s2\<rparr>"
        by (metis State.update_convs(3) State.select_convs(3) State.surjective)
    next
      show "length (death_counters ?s2) = n" using len by simp
    next
      fix j assume "j < Suc i"
      with inv len i show "death_counters ?s2 ! j = next_counter s j"
        by (cases "j = i") (simp_all add: less_Suc_eq)
    next
      fix j assume "Suc i \<le> j"
      with inv show "death_counters ?s2 ! j = death_counters s ! j" by simp
    qed
    with step show "\<exists>s'. death_counter_step i s1 = Some s' \<and> ?I (Suc i) s'" by blast
  qed
  then obtain s' where r: "for_loop [0..<n] death_counter_step s = Some s'" and i: "?I n s'"
    by blast
  from i have "death_counters s' = map (next_counter s) [0..<n]"
    by (intro nth_equalityI) auto
  with i have "s' = s\<lparr>death_counters := map (next_counter s) [0..<n]\<rparr>" by simp
  with r show ?thesis by (simp add: update_death_counters_def n)
qed


lemma update_animations_game: "update_animations s = Some s' \<Longrightarrow> game s' = game s"
  unfolding update_animations_def
  by (rule for_loop_preserves [where f = game and body = animation_step])
     (auto simp: animation_step_def Let_def split: if_splits)

lemma update_death_counters_game: "update_death_counters s = Some s' \<Longrightarrow> game s' = game s"
  unfolding update_death_counters_def
  by (rule for_loop_preserves [where f = game and body = death_counter_step])
     (auto simp: death_counter_step_def Let_def split: if_splits)

lemma update_player_frame:
  "update_player s =
     s\<lparr>player_move_dir := 2 * move_dir s,
       game := (game s)\<lparr>player := (player (game s))
                 \<lparr>player_x := player_x (player (game (update_player s)))\<rparr>\<rparr>\<rparr>"
  by (simp add: update_player_def Let_def)

lemma fire_bullet_eq:
  assumes "length (bullets (game s)) = MAX_BULLETS"
  shows "fire_bullet s =
     Some (if fire_pressed s \<and> unat (num_bullets (game s)) < MAX_BULLETS
           then s\<lparr>game := (game s)\<lparr>bullets := (bullets (game s))[unat (num_bullets (game s)) :=
                              \<lparr>bullet_x = player_x (player (game s)) + 5,
                               bullet_y = player_y (player (game s)) + 7,
                               bullet_dir = 2\<rparr>],
                            num_bullets := num_bullets (game s) + 1\<rparr>,
                   fire_pressed := False\<rparr>
           else s\<lparr>fire_pressed := False\<rparr>)"
proof -
  have "num_bullets (game s) < word_of_nat MAX_BULLETS \<longleftrightarrow> unat (num_bullets (game s)) < MAX_BULLETS"
    by (simp add: MAX_BULLETS_def word_less_nat_alt)
  then show ?thesis
    using assms
    by (simp add: fire_bullet_def Let_def bullet_slot_def player_sprite_def)
qed

lemma update_SomeD:
  assumes "update s = Some s'"
  obtains s1 s2 s3 where "update_animations s = Some s1" "update_death_counters s1 = Some s2"
    "update_bullets 0 s2 = Some s3" "fire_bullet (update_player s3) = Some s'"
  using assms by (auto simp: update_def split: option.splits)


section \<open>Player movement stays inside the buffer\<close>

lemma uint_scast_int: "uint (scast (d :: c_int) :: size_t) = take_bit 64 (sint d)"
proof -
  have "uint (word_of_int (sint d) :: size_t) = take_bit LENGTH(64) (sint d)"
    by (rule uint_word_of_int_eq)
  then show ?thesis unfolding scast_eq by simp
qed

lemma sint_narrow_add:
  "sint ((ucast (x :: size_t) :: c_int) + d) = signed_take_bit 31 (uint x + sint d)"
proof -
  have "take_bit 32 (sint (ucast x :: c_int)) = take_bit 32 (uint x)"
    by (simp add: sint_uint unsigned_ucast_eq take_bit_signed_take_bit)
  then have "take_bit 32 (sint (ucast x :: c_int) + sint d) = take_bit 32 (uint x + sint d)"
    by (metis take_bit_add)
  then have "signed_take_bit 31 (sint (ucast x :: c_int) + sint d) = signed_take_bit 31 (uint x + sint d)"
    by (simp add: signed_take_bit_eq_iff_take_bit_eq)
  then show ?thesis by (simp add: sint_word_add)
qed

lemma uint_add_scast:
  "uint ((x :: size_t) + scast (d :: c_int)) = take_bit 64 (uint x + sint d)"
proof -
  have "uint (x + scast d) = take_bit 64 (uint x + uint (scast d :: size_t))"
    by (simp add: uint_word_ariths take_bit_eq_mod)
  also have "\<dots> = take_bit 64 (uint x + sint d)"
    unfolding uint_scast_int by (metis take_bit_add take_bit_take_bit min.idem)
  finally show ?thesis .
qed

text \<open>
  The third branch of the movement, over the integers: \<open>x\<close> is the old position, \<open>d\<close>
  the displacement, \<open>w\<close> and \<open>pw\<close> the widths of the buffer and of the player's sprite.
\<close>

lemma clamp_arith:
  fixes x d w pw :: int
  assumes "0 \<le> x" "x \<le> w - pw" "0 \<le> pw" "w < 2 ^ 31" "- (2 ^ 31) \<le> d" "d < 2 ^ 31"
    and "\<not> w \<le> take_bit 64 (x + pw + d)"
    and "\<not> signed_take_bit 31 (x + d) \<le> 0"
  shows "take_bit 64 (x + d) \<le> w - pw"
proof (cases "0 < x + d")
  case True
  then have "take_bit 64 (x + pw + d) = x + pw + d"
    using assms by (simp add: take_bit_int_eq_self)
  with assms have "x + d < w - pw" by simp
  with True assms show ?thesis by (simp add: take_bit_int_eq_self)
next
  case False
  then have "signed_take_bit 31 (x + d) = x + d"
    using assms by (intro signed_take_bit_int_eq_self) auto
  with False assms show ?thesis by simp
qed

lemma update_player_x_range:
  assumes w: "game_width (game s) = 224"
    and x: "player_x (player (game s)) \<le> game_width (game s) - sprite_width player_sprite"
  shows "player_x (player (game (update_player s))) \<le> game_width (game s) - sprite_width player_sprite"
proof -
  let ?x = "player_x (player (game s))"
  let ?d = "2 * move_dir s"
  have x213: "uint ?x \<le> 213" using x w by (simp add: player_sprite_def word_le_def)
  have d: "- (2 ^ 31) \<le> sint ?d" "sint ?d < 2 ^ 31"
    using sint_ge [of ?d] sint_lt [of ?d] by simp_all
  have step: "uint (?x + scast ?d) \<le> 213"
    if a: "\<not> 224 \<le> ?x + 11 + scast ?d" and b: "\<not> (ucast ?x :: c_int) + ?d \<le>s 0"
  proof -
    have "uint (?x + 11 + scast ?d) = take_bit 64 (uint ?x + 11 + sint ?d)"
      using uint_add_scast [of "?x + 11" ?d] by (simp add: uint_word_ariths take_bit_eq_mod mod_simps)
    with a have a': "\<not> 224 \<le> take_bit 64 (uint ?x + 11 + sint ?d)"
      by (simp add: word_le_def)
    from b have b': "\<not> signed_take_bit 31 (uint ?x + sint ?d) \<le> 0"
      by (simp add: word_sle_eq sint_narrow_add)
    have "take_bit 64 (uint ?x + sint ?d) \<le> 224 - 11"
      by (rule clamp_arith [OF _ _ _ _ d a' b']) (use x213 in simp_all)
    then show ?thesis by (simp add: uint_add_scast)
  qed
  show ?thesis
    using w x step
    by (auto simp: update_player_def Let_def player_sprite_def word_le_def)
qed

section \<open>The simulation step on the states of a run\<close>

lemma anim_ok_tick:
  assumes "anim_ok i a"
  shows "anim_ok i (tick_animation a)"
proof -
  from assms have t: "anim_time a < 20" and nf: "num_frames a = 2" "frame_duration a = 10"
    by (simp_all add: anim_ok_def)
  have "anim_time a + 1 < 20" if "anim_time a + 1 \<noteq> 20"
    using t that by unat_arith
  with assms show ?thesis
    by (auto simp: anim_ok_def tick_animation_def)
qed

lemma wf_state_update_player:
  assumes "wf_state s"
  shows "wf_state (update_player s)"
proof -
  from assms have "game_width (game s) = 224"
    and "player_x (player (game s)) \<le> game_width (game s) - sprite_width player_sprite"
    by (simp_all add: wf_state_def player_sprite_def)
  from update_player_x_range [OF this]
  have x: "player_x (player (game (update_player s))) \<le> 213"
    using assms by (simp add: wf_state_def player_sprite_def)
  have "wf_state (s\<lparr>player_move_dir := 2 * move_dir s,
       game := (game s)\<lparr>player := (player (game s))
                 \<lparr>player_x := player_x (player (game (update_player s)))\<rparr>\<rparr>\<rparr>)"
    using assms x by (simp add: wf_state_def)
  then show ?thesis by (simp add: update_player_frame [symmetric])
qed

lemma wf_state_fire:
  assumes "wf_state s"
  shows "\<exists>s'. fire_bullet s = Some s' \<and> wf_state s' \<and> \<not> fire_pressed s'"
proof -
  from assms have len: "length (bullets (game s)) = MAX_BULLETS" by (simp add: wf_state_def)
  have "unat (num_bullets (game s) + 1) \<le> MAX_BULLETS"
    if "unat (num_bullets (game s)) < MAX_BULLETS"
    using that unfolding MAX_BULLETS_def by unat_arith
  with assms show ?thesis
    unfolding fire_bullet_eq [OF len] by (auto simp: wf_state_def)
qed


text \<open>
  One simulation step from a state of a run: it completes, and this is what it does to
  the components the claims speak of.
\<close>

definition step_rel :: "State \<Rightarrow> State \<Rightarrow> bool" where
  "step_rel s s' \<longleftrightarrow>
     alien_animation s' = map tick_animation (alien_animation s) \<and>
     death_counters s' = map (next_counter s) [0..<55] \<and>
     player_y (player (game s')) = player_y (player (game s)) \<and>
     player_life (player (game s')) = player_life (player (game s)) \<and>
     \<not> fire_pressed s' \<and> move_dir s' = move_dir s \<and> game_running s' = game_running s \<and>
     (\<forall>j. alien_type (aliens (game s) ! j) = ALIEN_DEAD \<longrightarrow>
          aliens (game s') ! j = aliens (game s) ! j)"

lemma update_wf:
  assumes wf: "wf_state s"
  shows "\<exists>s'. update s = Some s' \<and> wf_state s' \<and> step_rel s s'"
proof -
  from wf have len: "length (alien_animation s) = 3" "unat (num_aliens (game s)) = 55"
    "length (aliens (game s)) = 55" "length (death_counters s) = 55"
    by (simp_all add: wf_state_def)
  let ?s1 = "s\<lparr>alien_animation := map tick_animation (alien_animation s)\<rparr>"
  have s1: "update_animations s = Some ?s1" by (rule update_animations_eq [OF len(1)])
  have wf1: "wf_state ?s1" using wf by (auto simp: wf_state_def anim_ok_tick)
  let ?s2 = "?s1\<lparr>death_counters := map (next_counter ?s1) [0..<55]\<rparr>"
  have s2: "update_death_counters ?s1 = Some ?s2"
    by (rule update_death_counters_eq) (simp_all add: len)
  have nc: "next_counter ?s1 = next_counter s" by (simp add: next_counter_def fun_eq_iff)
  have wf2: "wf_state ?s2"
    using wf1 by (auto simp: wf_state_def next_counter_def)
  from update_bullets_total [OF wf2, of 0] obtain s3 where
    s3: "update_bullets 0 ?s2 = Some s3" and wf3: "wf_state s3" by blast
  note f3 = update_bullets_frame [OF s3]
  have wf4: "wf_state (update_player s3)" by (rule wf_state_update_player [OF wf3])
  from wf_state_fire [OF wf4] obtain s' where
    s': "fire_bullet (update_player s3) = Some s'" and wf': "wf_state s'" and nf: "\<not> fire_pressed s'"
    by blast
  from wf4 have len4: "length (bullets (game (update_player s3))) = MAX_BULLETS"
    by (simp add: wf_state_def)
  have p: "player (game s') = player (game (update_player s3))"
    "alien_animation s' = alien_animation (update_player s3)"
    "death_counters s' = death_counters (update_player s3)"
    "move_dir s' = move_dir (update_player s3)"
    "game_running s' = game_running (update_player s3)"
    "aliens (game s') = aliens (game (update_player s3))"
    using s' unfolding fire_bullet_eq [OF len4] by (auto split: if_splits)
  have q: "player_y (player (game (update_player s3))) = player_y (player (game s3))"
    "player_life (player (game (update_player s3))) = player_life (player (game s3))"
    "alien_animation (update_player s3) = alien_animation s3"
    "death_counters (update_player s3) = death_counters s3"
    "move_dir (update_player s3) = move_dir s3"
    "game_running (update_player s3) = game_running s3"
    "aliens (game (update_player s3)) = aliens (game s3)"
    by (simp_all add: update_player_def Let_def)
  have "step_rel s s'"
    unfolding step_rel_def p q using f3 nf
    by (simp add: bullets_frame_def nc)
  moreover have "update s = Some s'" by (simp add: update_def s1 s2 s3 s')
  ultimately show ?thesis using wf' by blast
qed

lemma key_callback_fields:
  "game (key_callback k a s) = game s"
  "alien_animation (key_callback k a s) = alien_animation s"
  "death_counters (key_callback k a s) = death_counters s"
  "score (key_callback k a s) = score s"
  by (cases k; simp)+

lemma poll_events_fields:
  "game (poll_events evs s) = game s \<and>
   alien_animation (poll_events evs s) = alien_animation s \<and>
   death_counters (poll_events evs s) = death_counters s \<and>
   score (poll_events evs s) = score s"
  unfolding poll_events_def
  by (induction evs arbitrary: s) (auto simp: key_callback_fields)

lemma wf_state_poll: "wf_state s \<Longrightarrow> wf_state (poll_events evs s)"
  by (simp add: wf_state_def poll_events_fields)

lemma game_loop_wf:
  "wf_state s \<Longrightarrow> \<exists>s'. game_loop batches s = Some s' \<and> wf_state s'"
proof (induction batches arbitrary: s)
  case Nil
  then show ?case by simp
next
  case (Cons evs rest)
  show ?case
  proof (cases "game_running s")
    case False
    with Cons.prems show ?thesis by simp
  next
    case True
    from update_wf [OF Cons.prems] obtain s1 where s1: "update s = Some s1" "wf_state s1"
      by blast
    from Cons.IH [OF wf_state_poll [OF s1(2), of evs]] s1 True show ?thesis by simp
  qed
qed

lemma wf_initial_state: "wf_state (initial_state fresh_bullets)"
  by (simp add: wf_state_def initial_state_def alloc_def anim_ok_def initial_animation_def
        MAX_BULLETS_def less_Suc_eq numeral_3_eq_3)


section \<open>Runs of the game loop\<close>

text \<open>
  A property indexed by the number of iterations: if each iteration takes it from \<open>k\<close>
  to \<open>k + 1\<close>, a run that is still going after all its batches has taken it as many
  steps as there were batches.
\<close>

lemma game_loop_steps:
  assumes step: "\<And>k s s' evs. wf_state s \<Longrightarrow> I k s \<Longrightarrow> update s = Some s' \<Longrightarrow> step_rel s s'
                   \<Longrightarrow> I (Suc k) (poll_events evs s')"
  shows "wf_state s \<Longrightarrow> I k s \<Longrightarrow> game_loop batches s = Some s' \<Longrightarrow> game_running s'
         \<Longrightarrow> I (k + length batches) s'"
proof (induction batches arbitrary: s k)
  case Nil
  then show ?case by simp
next
  case (Cons evs rest)
  from Cons.prems(3,4) have run: "game_running s" by (auto split: if_splits)
  from update_wf [OF Cons.prems(1)] obtain s1 where
    s1: "update s = Some s1" "wf_state s1" "step_rel s s1" by blast
  from Cons.prems(3) run s1 have rest: "game_loop rest (poll_events evs s1) = Some s'" by simp
  from Cons.IH [OF wf_state_poll [OF s1(2)] step [OF Cons.prems(1,2) s1(1,3)] rest Cons.prems(4)]
  show ?case by simp
qed

text \<open>A run whose batches hold no key event keeps going.\<close>

lemma game_loop_quiet:
  assumes "wf_state s" "game_running s"
  shows "\<exists>s'. game_loop (replicate n []) s = Some s' \<and> game_running s' \<and> wf_state s'"
  using assms
proof (induction n arbitrary: s)
  case 0
  then show ?case by simp
next
  case (Suc n)
  from update_wf [OF Suc.prems(1)] obtain s1 where
    s1: "update s = Some s1" "wf_state s1" "step_rel s s1" by blast
  with Suc.prems have "game_running s1" by (simp add: step_rel_def)
  from Suc.IH [OF s1(2) this] s1(1) Suc.prems(2) show ?case
    by (simp add: poll_events_def)
qed


lemma update_death_counters_anims:
  "update_death_counters s = Some s' \<Longrightarrow> alien_animation s' = alien_animation s"
  unfolding update_death_counters_def
  by (rule for_loop_preserves [where f = alien_animation and body = death_counter_step])
     (auto simp: death_counter_step_def Let_def split: if_splits)

lemma fire_bullet_frame:
  assumes "fire_bullet s = Some s'"
  shows "player (game s') = player (game s)" "alien_animation s' = alien_animation s"
    "death_counters s' = death_counters s" "aliens (game s') = aliens (game s)"
    "\<not> fire_pressed s'"
  using assms by (auto simp: fire_bullet_def Let_def split: if_splits)

lemma update_effects:
  assumes "update s = Some s'"
  shows "player (game s') = (player (game s))\<lparr>player_x := player_x (player (game s'))\<rparr>"
    and "length (alien_animation s) = 3 \<Longrightarrow>
           alien_animation s' = map tick_animation (alien_animation s)"
    and "\<not> fire_pressed s'"
proof -
  from assms obtain s1 s2 s3 where s1: "update_animations s = Some s1"
    and s2: "update_death_counters s1 = Some s2"
    and s3: "update_bullets 0 s2 = Some s3"
    and s4: "fire_bullet (update_player s3) = Some s'"
    by (rule update_SomeD)
  note f = fire_bullet_frame [OF s4]
  note b = update_bullets_frame [OF s3, unfolded bullets_frame_def]
  have "player (game s3) = player (game s)"
    using b update_death_counters_game [OF s2] update_animations_game [OF s1] by simp
  moreover have "player (game (update_player s3)) =
      (player (game s3))\<lparr>player_x := player_x (player (game (update_player s3)))\<rparr>"
    by (simp add: update_player_def Let_def)
  ultimately show "player (game s') = (player (game s))\<lparr>player_x := player_x (player (game s'))\<rparr>"
    using f(1) by simp
  show "\<not> fire_pressed s'" by (rule f(5))
  show "alien_animation s' = map tick_animation (alien_animation s)"
    if len: "length (alien_animation s) = 3"
  proof -
    from s1 have "alien_animation s1 = map tick_animation (alien_animation s)"
      unfolding update_animations_eq [OF len] by auto
    moreover have "alien_animation (update_player s3) = alien_animation s3"
      by (simp add: update_player_def Let_def)
    ultimately show ?thesis
      using f(2) b update_death_counters_anims [OF s2] by simp
  qed
qed

section \<open>The claims\<close>

text \<open>
  Claim C3. Whatever the move-direction accumulator holds, one movement step takes a
  player position inside \<open>[0, buffer_width - player_sprite_width]\<close> to a position
  inside it. The accumulator is any 32-bit value \<open>m\<close>; the positions are read as
  integers.
\<close>

theorem C3_player_in_range:
  assumes "game_width (game s) = 224"
    and "uint (player_x (player (game s))) \<le> uint (game_width (game s)) - uint (sprite_width player_sprite)"
  shows "0 \<le> uint (player_x (player (game (update_player (s\<lparr>move_dir := m\<rparr>))))) \<and>
         uint (player_x (player (game (update_player (s\<lparr>move_dir := m\<rparr>)))))
           \<le> uint (game_width (game s)) - uint (sprite_width player_sprite)"
proof -
  let ?s = "s\<lparr>move_dir := m\<rparr>"
  from assms have "game_width (game ?s) = 224"
    and "player_x (player (game ?s)) \<le> game_width (game ?s) - sprite_width player_sprite"
    by (simp_all add: word_le_def player_sprite_def)
  from update_player_x_range [OF this] assms(1) show ?thesis
    by (simp add: word_le_def player_sprite_def)
qed

text \<open>Slots of the pool that were never written, in the states the witnesses use.\<close>

definition no_bullet :: "nat \<Rightarrow> Bullet" where
  "no_bullet i = \<lparr>bullet_x = 0, bullet_y = 0, bullet_dir = 0\<rparr>"

theorem C3_player_in_range_witness:
  "game_width (game (initial_state no_bullet)) = 224 \<and>
   uint (player_x (player (game (initial_state no_bullet)))) = 107 \<and>
   uint (player_x (player (game (update_player ((initial_state no_bullet)\<lparr>move_dir := - 1\<rparr>))))) = 105 \<and>
   uint (player_x (player (game (update_player ((initial_state no_bullet)\<lparr>move_dir := - 1\<rparr>)))))
      \<le> uint (game_width (game (initial_state no_bullet))) - uint (sprite_width player_sprite)"
proof -
  have a: "game_width (game (initial_state no_bullet)) = 224"
    and b: "uint (player_x (player (game (initial_state no_bullet)))) = 107"
    by (simp_all add: initial_state_def)
  have c: "uint (player_x (player (game (update_player ((initial_state no_bullet)\<lparr>move_dir := - 1\<rparr>))))) = 105"
    by (simp add: initial_state_def update_player_def Let_def player_sprite_def word_sle_eq)
  from C3_player_in_range [OF a, of "- 1"] a b c show ?thesis
    by (simp add: player_sprite_def)
qed


text \<open>
  Claim C10. One iteration of the game loop, the key callback and any run of the loop
  leave the player's \<open>y\<close> and life count as they were: the player after is the player
  before with at most \<open>x\<close> changed. From its initialisation on, \<open>y\<close> is 32 and the life
  count is 3.
\<close>

theorem C10_player_y_life_unchanged:
  "(\<forall>s'. update s = Some s' \<longrightarrow>
        player (game s') = (player (game s))\<lparr>player_x := player_x (player (game s'))\<rparr>) \<and>
   player (game (key_callback key action s)) = player (game s) \<and>
   (\<forall>s'. game_loop batches s = Some s' \<longrightarrow>
        player_y (player (game s')) = player_y (player (game s)) \<and>
        player_life (player (game s')) = player_life (player (game s))) \<and>
   (\<exists>s0 s'. main_init fresh_animations fresh_aliens fresh_bullets fresh_counters = Some s0 \<and>
        game_loop batches s0 = Some s' \<and>
        player_y (player (game s')) = 32 \<and> player_life (player (game s')) = 3)"
proof -
  have one: "player (game s') = (player (game s))\<lparr>player_x := player_x (player (game s'))\<rparr>"
    if "update s = Some s'" for s s'
    using update_effects(1) [OF that] .
  have run: "player_y (player (game s')) = player_y (player (game s)) \<and>
        player_life (player (game s')) = player_life (player (game s))"
    if "game_loop batches s = Some s'" for s s'
    using that
  proof (induction batches arbitrary: s)
    case Nil
    then show ?case by simp
  next
    case (Cons evs rest)
    show ?case
    proof (cases "game_running s")
      case False
      with Cons.prems show ?thesis by simp
    next
      case True
      with Cons.prems obtain s1 where s1: "update s = Some s1"
        and r: "game_loop rest (poll_events evs s1) = Some s'"
        by (auto split: option.splits)
      from one [OF s1] have "player_y (player (game s1)) = player_y (player (game s))"
        "player_life (player (game s1)) = player_life (player (game s))"
        by (metis Player.select_convs(2) Player.surjective Player.update_convs(1),
            metis Player.select_convs(3) Player.surjective Player.update_convs(1))
      with Cons.IH [OF r] show ?thesis by (simp add: poll_events_fields)
    qed
  qed
  from game_loop_wf [OF wf_initial_state, of batches fresh_bullets] obtain s' where
    s': "game_loop batches (initial_state fresh_bullets) = Some s'" by blast
  from run [OF s'] have "player_y (player (game s')) = 32 \<and> player_life (player (game s')) = 3"
    by (simp add: initial_state_def)
  with s' have "\<exists>s0 s'. main_init fresh_animations fresh_aliens fresh_bullets fresh_counters = Some s0 \<and>
        game_loop batches s0 = Some s' \<and>
        player_y (player (game s')) = 32 \<and> player_life (player (game s')) = 3"
    unfolding main_init_initial_state by blast
  with one run show ?thesis by (simp add: key_callback_fields)
qed



text \<open>
  A state for the witnesses: the initial state after the left key was pressed and the
  space key released. One simulation step moves the player two pixels to the left and
  fires the first bullet.
\<close>

definition left_fire_state :: State where
  "left_fire_state = (initial_state no_bullet)\<lparr>move_dir := - 1, fire_pressed := True\<rparr>"

lemma wf_left_fire_state: "wf_state left_fire_state"
  using wf_initial_state [of no_bullet] by (simp add: wf_state_def left_fire_state_def)

lemma update_left_fire_state:
  "map_option (\<lambda>s. (player (game s), num_bullets (game s), bullets (game s) ! 0, fire_pressed s))
     (update left_fire_state) =
   Some (\<lparr>player_x = 105, player_y = 32, player_life = 3\<rparr>, 1,
         \<lparr>bullet_x = 110, bullet_y = 39, bullet_dir = 2\<rparr>, False)"
  by code_simp

theorem C10_player_y_life_unchanged_witness:
  "(\<exists>s'. update left_fire_state = Some s' \<and>
        player (game left_fire_state) = \<lparr>player_x = 107, player_y = 32, player_life = 3\<rparr> \<and>
        player (game s') = \<lparr>player_x = 105, player_y = 32, player_life = 3\<rparr>) \<and>
   (\<exists>s'. game_loop [[(KEY_RIGHT, PRESS)], [], [(KEY_SPACE, RELEASE)]] left_fire_state = Some s' \<and>
        player_y (player (game s')) = 32 \<and> player_life (player (game s')) = 3)"
proof -
  note c10 = C10_player_y_life_unchanged
    [of left_fire_state KEY_RIGHT PRESS "[[(KEY_RIGHT, PRESS)], [], [(KEY_SPACE, RELEASE)]]"]
  from update_left_fire_state obtain s1 where s1: "update left_fire_state = Some s1"
    and x: "player_x (player (game s1)) = 105"
    by auto
  from c10 s1 have "player (game s1) =
      (player (game left_fire_state))\<lparr>player_x := player_x (player (game s1))\<rparr>"
    by blast
  with x have a: "player (game left_fire_state) = \<lparr>player_x = 107, player_y = 32, player_life = 3\<rparr> \<and>
        player (game s1) = \<lparr>player_x = 105, player_y = 32, player_life = 3\<rparr>"
    by (simp add: left_fire_state_def initial_state_def)
  from game_loop_wf [OF wf_left_fire_state] obtain s' where
    s': "game_loop [[(KEY_RIGHT, PRESS)], [], [(KEY_SPACE, RELEASE)]] left_fire_state = Some s'"
    by blast
  with c10 have "player_y (player (game s')) = player_y (player (game left_fire_state)) \<and>
        player_life (player (game s')) = player_life (player (game left_fire_state))"
    by blast
  then have "player_y (player (game s')) = 32 \<and> player_life (player (game s')) = 3"
    by (simp add: left_fire_state_def initial_state_def)
  with s' s1 a show ?thesis by blast
qed



lemma clock_below_20:
  fixes t :: size_t
  assumes "t < 20"
  shows "t + 1 = 20 \<Longrightarrow> unat t = 19"
    and "unat (t + 1) = Suc (unat t)"
    and "t + 1 \<noteq> 20 \<Longrightarrow> unat t \<noteq> 19"
proof -
  show "unat t = 19" if b: "t + 1 = 20"
  proof -
    from b have "t = 20 - 1" by (metis add_diff_cancel_right')
    then show ?thesis by simp
  qed
  from assms have "unat t < 20" by (simp add: word_less_nat_alt)
  then have "unat t + unat (1 :: size_t) < 2 ^ LENGTH(64)" by simp
  then have "unat (t + 1) = unat t + unat (1 :: size_t)" by (simp only: unat_add_lem [THEN iffD1])
  then show "unat (t + 1) = Suc (unat t)" by simp
  show "unat t \<noteq> 19" if b: "t + 1 \<noteq> 20"
  proof
    assume c: "unat t = 19"
    have "t = word_of_nat (unat t)" by simp
    with c have "t = 19" by simp
    with b show False by simp
  qed
qed

lemma tick_time:
  assumes a: "num_frames a = 2" "frame_duration a = 10" "anim_time a < 20"
    and t: "unat (anim_time a) = k mod 20"
  shows "unat (anim_time (tick_animation a)) = Suc k mod 20"
proof (cases "anim_time a + 1 = 20")
  case True
  from clock_below_20(1) [OF a(3) True] t True a show ?thesis
    by (simp add: tick_animation_def mod_Suc)
next
  case False
  from clock_below_20(2) [OF a(3)] clock_below_20(3) [OF a(3) False] t False a show ?thesis
    by (simp add: tick_animation_def mod_Suc)
qed

lemma initial_times: "j < 3 \<Longrightarrow> anim_time (alien_animation (initial_state fb) ! j) = 0"
  by (simp add: initial_state_def initial_animation_def)

text \<open>
  Claim C9. For each of the three animation clocks: one iteration of the game loop adds
  1 to the time and sets it to 0 when the sum equals \<open>num_frames * frame_duration\<close>; in a
  run from the initial state that product is 20, the frame index
  \<open>time div frame_duration\<close> is 0 or 1, and while the loop is running the time after
  \<open>n\<close> iterations is \<open>n mod 20\<close>, so that the frame index is \<open>n mod 20 div 10\<close>, which has
  period 20.
\<close>

theorem C9_animation_clock:
  assumes "i < 3"
  shows "(\<forall>s s'. length (alien_animation s) = 3 \<and> update s = Some s' \<longrightarrow>
            anim_time (alien_animation s' ! i) =
              (let a = alien_animation s ! i
               in if anim_time a + 1 = num_frames a * frame_duration a then 0
                  else anim_time a + 1)) \<and>
         (\<exists>s0 s'. main_init fresh_animations fresh_aliens fresh_bullets fresh_counters = Some s0 \<and>
            game_loop batches s0 = Some s' \<and>
            (let a = alien_animation s' ! i
             in num_frames a * frame_duration a = 20 \<and>
                unat (anim_time a div frame_duration a) \<in> {0, 1} \<and>
                (game_running s' \<longrightarrow>
                   unat (anim_time a) = length batches mod 20 \<and>
                   unat (anim_time a div frame_duration a) = length batches mod 20 div 10)))"
proof -
  have one: "anim_time (alien_animation s' ! i) =
              (let a = alien_animation s ! i
               in if anim_time a + 1 = num_frames a * frame_duration a then 0
                  else anim_time a + 1)"
    if "length (alien_animation s) = 3" "update s = Some s'" for s s'
    using update_effects(2) [OF that(2,1)] that(1) assms
    by (simp add: tick_animation_def Let_def)
  let ?I = "\<lambda>k s. \<forall>j<3. unat (anim_time (alien_animation s ! j)) = k mod 20"
  let ?s0 = "initial_state fresh_bullets"
  from game_loop_wf [OF wf_initial_state, of batches fresh_bullets] obtain s' where
    s': "game_loop batches ?s0 = Some s'" and wf': "wf_state s'" by blast
  from wf' assms have ok: "anim_ok i (alien_animation s' ! i)" by (simp add: wf_state_def)
  have count: "?I (0 + length batches) s'" if "game_running s'"
  proof (rule game_loop_steps [where I = ?I, OF _ wf_initial_state _ s' that])
    show "?I 0 ?s0" by (simp add: initial_times)
  next
    fix k s t evs
    assume wf: "wf_state s" and I: "?I k s" and st: "step_rel s t"
    show "?I (Suc k) (poll_events evs t)"
    proof (intro allI impI)
      fix j :: nat assume j: "j < 3"
      let ?a = "alien_animation s ! j"
      from wf j have a: "num_frames ?a = 2" "frame_duration ?a = 10" "anim_time ?a < 20"
        and len: "length (alien_animation s) = 3"
        by (simp_all add: wf_state_def anim_ok_def)
      from I j have t: "unat (anim_time ?a) = k mod 20" by simp
      have "unat (anim_time (tick_animation ?a)) = Suc k mod 20"
        by (rule tick_time [OF a t])
      with st j len show "unat (anim_time (alien_animation (poll_events evs t) ! j)) = Suc k mod 20"
        by (simp add: step_rel_def poll_events_fields)
    qed
  qed
  from ok have nf: "num_frames (alien_animation s' ! i) * frame_duration (alien_animation s' ! i) = 20"
    and fd: "frame_duration (alien_animation s' ! i) = 10"
    and fi: "unat (anim_time (alien_animation s' ! i) div 10) \<in> {0, 1}"
    using frame_index [of "anim_time (alien_animation s' ! i)"] by (auto simp: anim_ok_def)
  have "unat (anim_time (alien_animation s' ! i)) = length batches mod 20 \<and>
        unat (anim_time (alien_animation s' ! i) div 10) = length batches mod 20 div 10"
    if "game_running s'"
    using count [OF that] assms by (simp add: unat_div)
  with nf fd fi have body: "let a = alien_animation s' ! i
             in num_frames a * frame_duration a = 20 \<and>
                unat (anim_time a div frame_duration a) \<in> {0, 1} \<and>
                (game_running s' \<longrightarrow>
                   unat (anim_time a) = length batches mod 20 \<and>
                   unat (anim_time a div frame_duration a) = length batches mod 20 div 10)"
    by (simp add: Let_def)
  have run: "\<exists>s0 s'. main_init fresh_animations fresh_aliens fresh_bullets fresh_counters = Some s0 \<and>
            game_loop batches s0 = Some s' \<and>
            (let a = alien_animation s' ! i
             in num_frames a * frame_duration a = 20 \<and>
                unat (anim_time a div frame_duration a) \<in> {0, 1} \<and>
                (game_running s' \<longrightarrow>
                   unat (anim_time a) = length batches mod 20 \<and>
                   unat (anim_time a div frame_duration a) = length batches mod 20 div 10))"
    by (rule exI [of _ ?s0], rule exI [of _ s'], intro conjI main_init_initial_state s' body)
  show ?thesis
  proof (rule conjI)
    show "\<forall>s s'. length (alien_animation s) = 3 \<and> update s = Some s' \<longrightarrow>
            anim_time (alien_animation s' ! i) =
              (let a = alien_animation s ! i
               in if anim_time a + 1 = num_frames a * frame_duration a then 0
                  else anim_time a + 1)"
      by (intro allI impI, elim conjE, rule one)
  qed (rule run)
qed


theorem C9_animation_clock_witness:
  "(2::nat) < 3 \<and>
   (\<exists>s'. length (alien_animation left_fire_state) = 3 \<and> update left_fire_state = Some s' \<and>
         anim_time (alien_animation left_fire_state ! 2) = 0 \<and>
         anim_time (alien_animation s' ! 2) = 1) \<and>
   (\<exists>s0 s'. main_init (\<lambda>i. \<lparr>anim_loop = False, num_frames = 0, frame_duration = 0,
                                 anim_time = 0, frames = []\<rparr>)
                (\<lambda>i. \<lparr>alien_x = 0, alien_y = 0, alien_type = 0\<rparr>) no_bullet (\<lambda>i. 0) = Some s0 \<and>
         game_loop (replicate 32 []) s0 = Some s' \<and> game_running s' \<and>
         unat (anim_time (alien_animation s' ! 2)) = 12 \<and>
         unat (anim_time (alien_animation s' ! 2) div frame_duration (alien_animation s' ! 2)) = 1)"
proof -
  have i: "(2::nat) < 3" by simp
  note c9 = C9_animation_clock [OF i, of "\<lambda>i. \<lparr>anim_loop = False, num_frames = 0, frame_duration = 0,
                                 anim_time = 0, frames = []\<rparr>"
                "\<lambda>i. \<lparr>alien_x = 0, alien_y = 0, alien_type = 0\<rparr>" no_bullet "\<lambda>i. 0" "replicate 32 []"]
  have len: "length (alien_animation left_fire_state) = 3"
    and t0: "anim_time (alien_animation left_fire_state ! 2) = 0"
    and nf: "num_frames (alien_animation left_fire_state ! 2) = 2"
       "frame_duration (alien_animation left_fire_state ! 2) = 10"
    by (simp_all add: left_fire_state_def initial_state_def initial_animation_def)
  from update_wf [OF wf_left_fire_state] obtain s1 where s1: "update left_fire_state = Some s1"
    by blast
  from c9 len s1 have "anim_time (alien_animation s1 ! 2) =
              (let a = alien_animation left_fire_state ! 2
               in if anim_time a + 1 = num_frames a * frame_duration a then 0
                  else anim_time a + 1)"
    by blast
  then have t1: "anim_time (alien_animation s1 ! 2) = 1" by (simp add: Let_def t0 nf)
  from c9 obtain s0 s' where
    s0: "main_init (\<lambda>i. \<lparr>anim_loop = False, num_frames = 0, frame_duration = 0,
                                 anim_time = 0, frames = []\<rparr>)
                (\<lambda>i. \<lparr>alien_x = 0, alien_y = 0, alien_type = 0\<rparr>) no_bullet (\<lambda>i. 0) = Some s0"
    and s': "game_loop (replicate 32 []) s0 = Some s'"
    and body: "game_running s' \<longrightarrow>
                   unat (anim_time (alien_animation s' ! 2)) = length (replicate 32 ([] :: (Key \<times> Action) list)) mod 20 \<and>
                   unat (anim_time (alien_animation s' ! 2) div frame_duration (alien_animation s' ! 2)) =
                     length (replicate 32 ([] :: (Key \<times> Action) list)) mod 20 div 10"
    unfolding Let_def by blast
  from s0 have eq: "s0 = initial_state no_bullet" by (simp add: main_init_initial_state)
  have "game_running (initial_state no_bullet)" by (simp add: initial_state_def)
  from game_loop_quiet [OF wf_initial_state this, of 32] s' eq have run: "game_running s'"
    by auto
  with body have "unat (anim_time (alien_animation s' ! 2)) = 12 \<and>
         unat (anim_time (alien_animation s' ! 2) div frame_duration (alien_animation s' ! 2)) = 1"
    by simp
  with i len s1 t0 t1 s0 s' run show ?thesis by blast
qed













lemma sint_type_index: "sint (ucast (t :: uint8_t) - 1 :: c_int) = uint t - 1"
proof -
  have u: "uint t < 256" using uint_lt2p [of t] by simp
  have "sint (ucast t :: c_int) = uint t"
  proof -
    have nn: "0 \<le> uint t" by simp
    have "- (2 ^ 31) \<le> (0 :: int)" "(256 :: int) < 2 ^ 31" by simp_all
    with nn u have "- (2 ^ 31) \<le> uint t" "uint t < 2 ^ 31" by linarith+
    then have "signed_take_bit 31 (uint t) = uint t" by (rule signed_take_bit_int_eq_self)
    then show ?thesis by (simp add: signed_ucast_eq)
  qed
  then have "sint (ucast t - 1 :: c_int) = signed_take_bit 31 (uint t - 1)"
    by (simp add: sint_word_diff)
  also have "\<dots> = uint t - 1"
  proof -
    have nn: "0 \<le> uint t" by simp
    have "- (2 ^ 31) \<le> (- 1 :: int)" "(256 :: int) < 2 ^ 31" by simp_all
    with nn u have "- (2 ^ 31) \<le> uint t - 1" "uint t - 1 < 2 ^ 31" by linarith+
    then show ?thesis by (rule signed_take_bit_int_eq_self)
  qed
  finally show ?thesis .
qed

lemma current_frame_type:
  assumes "current_frame_sprite s a = Some fr" "length (alien_animation s) = 3"
  shows "alien_type a = 1 \<or> alien_type a = 2 \<or> alien_type a = 3"
proof -
  from assms have "0 \<le> uint (alien_type a) - 1" "uint (alien_type a) - 1 < 3"
    by (auto simp: current_frame_sprite_def Let_def sint_type_index split: if_splits)
  then have "uint (alien_type a) = 1 \<or> uint (alien_type a) = 2 \<or> uint (alien_type a) = 3"
    by arith
  moreover have "alien_type a = word_of_int (uint (alien_type a))" by simp
  ultimately show ?thesis by (elim disjE) simp_all
qed


lemma for_loop_fixed:
  assumes "\<And>i. i \<in> set is \<Longrightarrow> body i s = Some s"
  shows "for_loop is body s = Some s"
  using assms by (induction "is") simp_all

lemma scan_frame: "for_loop is (check_alien bi) s = Some s' \<Longrightarrow> bullets_frame s s'"
  by (rule for_loop_rel [where R = bullets_frame and body = "check_alien bi"])
     (auto intro: bullets_frame_refl bullets_frame_trans check_alien_frame)

lemma scan_num_bullets:
  "for_loop is (check_alien bi) s = Some s' \<Longrightarrow>
     unat (num_bullets (game s')) \<le> unat (num_bullets (game s))"
  by (rule for_loop_num_bullets_le [where body = "check_alien bi"]) (auto dest: check_alien_num_bullets)

lemma scan_split:
  assumes "ai < 55"
  shows "[0..<55] = [0..<Suc ai] @ [Suc ai..<55]"
proof -
  from assms have "Suc ai + (54 - ai) = 55" by simp
  with upt_add_eq_append [of 0 "Suc ai" "54 - ai"] show ?thesis by simp
qed

text \<open>
  Claim C1. The scan of the aliens for the bullet in slot \<open>bi\<close> of the pool
  (\<open>check_aliens\<close>, the inner loop of the bullet loop), from a state \<open>s\<close> of a run, when
  the bullet's sprite at the bullet's position overlaps, by \<^verbatim>\<open>sprite_overlap_check\<close> (the
  test \<open>bx < ax + aw\<close>, \<open>bx + bw > ax\<close>, \<open>by < ay + ah\<close>, \<open>by + bh > ay\<close> in \<^verbatim>\<open>size_t\<close>
  arithmetic), the frame \<open>fr\<close> that an alien \<open>ai\<close> which is not dead shows. The scan
  completes. Its iterations up to \<open>ai\<close> end in a state \<open>h\<close> in which the alien's type is
  DEAD, the score is the score of \<open>s\<close> plus \<open>10 * (4 - old type)\<close>, the alien's \<open>x\<close> has
  gone down by \<open>(death sprite width - frame width) div 2\<close>, its \<open>y\<close> and the other aliens
  are as they were, and the bullet has been removed by overwriting its slot with the
  last bullet of the pool and shrinking the pool by one. The iterations after \<open>ai\<close> start
  from \<open>h\<close> and test what the slot holds now, the bullet that was last in the pool:
  they leave the alien \<open>ai\<close> as it is in \<open>h\<close> and the pool no larger, and when that
  bullet overlaps none of the aliens still to come that are not dead (as is the case
  when the bullet in slot \<open>bi\<close> was itself the last of the pool) the scan ends in \<open>h\<close>.
\<close>

theorem C1_collision_effect:
  assumes wf: "wf_state s"
    and bi: "bi < unat (num_bullets (game s))"
    and ai: "ai < 55"
    and live: "alien_type (aliens (game s) ! ai) \<noteq> ALIEN_DEAD"
    and fr: "current_frame_sprite s (aliens (game s) ! ai) = Some fr"
    and overlap: "sprite_overlap_check bullet_sprite
             (bullet_x (bullets (game s) ! bi)) (bullet_y (bullets (game s) ! bi))
             fr (alien_x (aliens (game s) ! ai)) (alien_y (aliens (game s) ! ai))"
  shows "\<exists>h s'. for_loop [0..<Suc ai] (check_alien bi) s = Some h \<and>
           for_loop [Suc ai..<55] (check_alien bi) h = Some s' \<and>
           check_aliens bi s = Some s' \<and>
           alien_type (aliens (game h) ! ai) = ALIEN_DEAD \<and>
           score h = score s + word_of_nat (10 * (4 - unat (alien_type (aliens (game s) ! ai)))) \<and>
           alien_x (aliens (game h) ! ai) =
             alien_x (aliens (game s) ! ai) -
             (sprite_width alien_death_sprite - sprite_width fr) div 2 \<and>
           alien_y (aliens (game h) ! ai) = alien_y (aliens (game s) ! ai) \<and>
           (\<forall>aj. aj \<noteq> ai \<longrightarrow> aliens (game h) ! aj = aliens (game s) ! aj) \<and>
           bullets (game h) =
             (bullets (game s))[bi := bullets (game s) ! (unat (num_bullets (game s)) - 1)] \<and>
           unat (num_bullets (game h)) = unat (num_bullets (game s)) - 1 \<and>
           aliens (game s') ! ai = aliens (game h) ! ai \<and>
           unat (num_bullets (game s')) \<le> unat (num_bullets (game h)) \<and>
           ((bi = unat (num_bullets (game s)) - 1 \<or>
             (\<forall>aj fj. ai < aj \<and> aj < 55 \<and> alien_type (aliens (game s) ! aj) \<noteq> ALIEN_DEAD \<and>
                 current_frame_sprite s (aliens (game s) ! aj) = Some fj \<longrightarrow>
                 \<not> sprite_overlap_check bullet_sprite
                     (bullet_x (bullets (game s) ! (unat (num_bullets (game s)) - 1)))
                     (bullet_y (bullets (game s) ! (unat (num_bullets (game s)) - 1)))
                     fj (alien_x (aliens (game s) ! aj)) (alien_y (aliens (game s) ! aj))))
            \<longrightarrow> s' = h)"
proof -
  from wf have len: "length (aliens (game s)) = 55" "length (bullets (game s)) = MAX_BULLETS"
    and anims: "length (alien_animation s) = 3" "\<forall>i<3. anim_ok i (alien_animation s ! i)"
    and nb: "unat (num_bullets (game s)) \<le> MAX_BULLETS"
    and na: "unat (num_aliens (game s)) = 55"
    by (simp_all add: wf_state_def)
  from bi nb have b: "bi < MAX_BULLETS" and pos: "0 < unat (num_bullets (game s))" by simp_all
  have slot: "bullet_slot (game s) bi" using b len by (simp add: bullet_slot_def)
  have ail: "ai < length (aliens (game s))" using ai len by simp
  have grid: "aliens (game s) ! aj = grid_alien (aj div 11) (aj mod 11)"
    if "aj < 55" "alien_type (aliens (game s) ! aj) \<noteq> ALIEN_DEAD" for aj
    using wf that by (auto simp: wf_state_def)
  have frame: "\<exists>fj. current_frame_sprite s (aliens (game s) ! aj) = Some fj"
    if aj: "aj < 55" "alien_type (aliens (game s) ! aj) \<noteq> ALIEN_DEAD" for aj
  proof -
    from aj(1) have rc: "aj div 11 < 5" "aj mod 11 < 11" by simp_all
    from current_frame_grid [OF anims rc] grid [OF aj] show ?thesis by auto
  qed
  let ?last = "bullets (game s) ! (unat (num_bullets (game s)) - 1)"
  let ?h = "hit_state bi ai fr s"
  have unique: "\<not> sprite_overlap_check bullet_sprite
             (bullet_x (bullets (game s) ! bi)) (bullet_y (bullets (game s) ! bi))
             fj (alien_x (aliens (game s) ! aj)) (alien_y (aliens (game s) ! aj))"
    if aj: "aj < 55" "aj \<noteq> ai" "alien_type (aliens (game s) ! aj) \<noteq> ALIEN_DEAD"
      and fj: "current_frame_sprite s (aliens (game s) ! aj) = Some fj" for aj fj
  proof
    assume oj: "sprite_overlap_check bullet_sprite
             (bullet_x (bullets (game s) ! bi)) (bullet_y (bullets (game s) ! bi))
             fj (alien_x (aliens (game s) ! aj)) (alien_y (aliens (game s) ! aj))"
    note gi = grid [OF ai live] and gj = grid [OF aj(1,3)]
    from overlap_grid_unique [OF anims ai aj(1) fr [unfolded gi] overlap [unfolded gi]
        fj [unfolded gj] oj [unfolded gj]] aj(2)
    show False by simp
  qed
  have prefix: "for_loop [0..<ai] (check_alien bi) s = Some s"
  proof (rule for_loop_fixed)
    fix aj assume "aj \<in> set [0..<ai]"
    with ai have aj: "aj < 55" "aj \<noteq> ai" by simp_all
    then have ajl: "aj < length (aliens (game s))" using len by simp
    show "check_alien bi aj s = Some s"
    proof (cases "alien_type (aliens (game s) ! aj) = ALIEN_DEAD")
      case True
      with ajl show ?thesis by (rule check_alien_dead)
    next
      case False
      from frame [OF aj(1) False] obtain fj where
        fj: "current_frame_sprite s (aliens (game s) ! aj) = Some fj" ..
      from ajl False fj slot unique [OF aj False fj] show ?thesis by (rule check_alien_miss)
    qed
  qed
  have hit: "check_alien bi ai s = Some ?h"
    by (rule check_alien_hit [OF ail live fr slot overlap pos nb len(2)])
  have upto: "for_loop [0..<Suc ai] (check_alien bi) s = Some ?h"
    by (simp add: for_loop_append prefix hit)
  from check_aliens_total [OF wf bi] obtain s' where s': "check_aliens bi s = Some s'"
    by blast
  have rest: "for_loop [Suc ai..<55] (check_alien bi) ?h = Some s'"
  proof -
    from s' have "for_loop ([0..<Suc ai] @ [Suc ai..<55]) (check_alien bi) s = Some s'"
      unfolding check_aliens_def na scan_split [OF ai, symmetric] .
    then show ?thesis unfolding for_loop_append upto by simp
  qed
  have n: "unat (num_bullets (game s) - 1) = unat (num_bullets (game s)) - 1"
    using pos by (simp add: unat_minus_one unat_gt_0)
  from current_frame_type [OF fr anims(1)]
  have sc: "(scast (10 * (4 - ucast (alien_type (aliens (game s) ! ai))) :: c_int) :: size_t) =
      word_of_nat (10 * (4 - unat (alien_type (aliens (game s) ! ai))))"
    by (elim disjE) simp_all
  have h1: "alien_type (aliens (game ?h) ! ai) = ALIEN_DEAD"
    and h2: "score ?h = score s + word_of_nat (10 * (4 - unat (alien_type (aliens (game s) ! ai))))"
    and h3: "alien_x (aliens (game ?h) ! ai) =
             alien_x (aliens (game s) ! ai) -
             (sprite_width alien_death_sprite - sprite_width fr) div 2"
    and h4: "alien_y (aliens (game ?h) ! ai) = alien_y (aliens (game s) ! ai)"
    and h5: "\<forall>aj. aj \<noteq> ai \<longrightarrow> aliens (game ?h) ! aj = aliens (game s) ! aj"
    and h6: "bullets (game ?h) = (bullets (game s))[bi := ?last]"
    and h7: "unat (num_bullets (game ?h)) = unat (num_bullets (game s)) - 1"
    using ail n sc by (simp_all add: hit_state_def Let_def)
  from scan_frame [OF rest] h1 have k1: "aliens (game s') ! ai = aliens (game ?h) ! ai"
    by (simp add: bullets_frame_def)
  have k2: "unat (num_bullets (game s')) \<le> unat (num_bullets (game ?h))"
    by (rule scan_num_bullets [OF rest])
  have k3: "s' = ?h"
    if side: "bi = unat (num_bullets (game s)) - 1 \<or>
             (\<forall>aj fj. ai < aj \<and> aj < 55 \<and> alien_type (aliens (game s) ! aj) \<noteq> ALIEN_DEAD \<and>
                 current_frame_sprite s (aliens (game s) ! aj) = Some fj \<longrightarrow>
                 \<not> sprite_overlap_check bullet_sprite (bullet_x ?last) (bullet_y ?last)
                     fj (alien_x (aliens (game s) ! aj)) (alien_y (aliens (game s) ! aj)))"
  proof -
    have clear: "\<not> sprite_overlap_check bullet_sprite (bullet_x ?last) (bullet_y ?last)
                     fj (alien_x (aliens (game s) ! aj)) (alien_y (aliens (game s) ! aj))"
      if aj: "ai < aj" "aj < 55" "alien_type (aliens (game s) ! aj) \<noteq> ALIEN_DEAD"
        and fj: "current_frame_sprite s (aliens (game s) ! aj) = Some fj" for aj fj
      using side
    proof
      assume "bi = unat (num_bullets (game s)) - 1"
      then have "?last = bullets (game s) ! bi" by simp
      moreover from aj(1) have "aj \<noteq> ai" by simp
      ultimately show ?thesis using unique [OF aj(2) _ aj(3) fj] by simp
    next
      assume "\<forall>aj fj. ai < aj \<and> aj < 55 \<and> alien_type (aliens (game s) ! aj) \<noteq> ALIEN_DEAD \<and>
                 current_frame_sprite s (aliens (game s) ! aj) = Some fj \<longrightarrow>
                 \<not> sprite_overlap_check bullet_sprite (bullet_x ?last) (bullet_y ?last)
                     fj (alien_x (aliens (game s) ! aj)) (alien_y (aliens (game s) ! aj))"
      with aj fj show ?thesis by blast
    qed
    have frames_same: "\<And>a. current_frame_sprite ?h a = current_frame_sprite s a"
      by (simp add: current_frame_sprite_def hit_state_def Let_def)
    have lenh: "length (aliens (game ?h)) = 55" "bullet_slot (game ?h) bi"
      using len b by (simp_all add: hit_state_def Let_def bullet_slot_def)
    have slot_last: "bullets (game ?h) ! bi = ?last"
      using len b by (simp add: h6)
    have "for_loop [Suc ai..<55] (check_alien bi) ?h = Some ?h"
    proof (rule for_loop_fixed)
      fix aj assume "aj \<in> set [Suc ai..<55]"
      then have aj: "ai < aj" "aj < 55" "aj \<noteq> ai" by simp_all
      then have ajl: "aj < length (aliens (game ?h))" using lenh by simp
      from h5 aj(3) have same: "aliens (game ?h) ! aj = aliens (game s) ! aj" by simp
      show "check_alien bi aj ?h = Some ?h"
      proof (cases "alien_type (aliens (game s) ! aj) = ALIEN_DEAD")
        case True
        then have "alien_type (aliens (game ?h) ! aj) = ALIEN_DEAD" by (simp add: same)
        with ajl show ?thesis by (rule check_alien_dead)
      next
        case False
        from frame [OF aj(2) False] obtain fj where
          fj: "current_frame_sprite s (aliens (game s) ! aj) = Some fj" ..
        have l: "alien_type (aliens (game ?h) ! aj) \<noteq> ALIEN_DEAD" using False by (simp add: same)
        have f: "current_frame_sprite ?h (aliens (game ?h) ! aj) = Some fj"
          using fj by (simp add: same frames_same)
        have m: "\<not> sprite_overlap_check bullet_sprite
             (bullet_x (bullets (game ?h) ! bi)) (bullet_y (bullets (game ?h) ! bi))
             fj (alien_x (aliens (game ?h) ! aj)) (alien_y (aliens (game ?h) ! aj))"
          using clear [OF aj(1,2) False fj] by (simp add: same slot_last)
        from ajl l f lenh(2) m show ?thesis by (rule check_alien_miss)
      qed
    qed
    with rest show ?thesis by simp
  qed
  show ?thesis
    apply (rule exI [of _ ?h], rule exI [of _ s'])
    apply (intro conjI)
                apply (rule upto)
               apply (rule rest)
              apply (rule s')
             apply (rule h1)
            apply (rule h2)
           apply (rule h3)
          apply (rule h4)
         apply (rule h5)
        apply (rule h6)
       apply (rule h7)
      apply (rule k1)
     apply (rule k2)
    apply (rule impI)
    apply (erule k3)
    done
qed

text \<open>
  A state of play: the player stands at \<open>x = 100\<close>, the four aliens above it in rows 0
  to 3 of column 5 have been shot, and the one bullet of the pool has just moved to
  \<open>(105, 195)\<close>, where it overlaps the alien of row 4, which has type A.
\<close>

definition top_row_hit_state :: State where
  "top_row_hit_state =
     (let s = initial_state no_bullet; g = game s
      in s\<lparr>game := g\<lparr>num_bullets := 1,
                      bullets := (bullets g)[0 := \<lparr>bullet_x = 105, bullet_y = 195, bullet_dir = 2\<rparr>],
                      aliens := (aliens g)[5 := \<lparr>alien_x = 100, alien_y = 128, alien_type = 0\<rparr>,
                                           16 := \<lparr>alien_x = 100, alien_y = 145, alien_type = 0\<rparr>,
                                           27 := \<lparr>alien_x = 100, alien_y = 162, alien_type = 0\<rparr>,
                                           38 := \<lparr>alien_x = 100, alien_y = 179, alien_type = 0\<rparr>],
                      player := \<lparr>player_x = 100, player_y = 32, player_life = 3\<rparr>\<rparr>,
           death_counters := (death_counters s)[5 := 0, 16 := 0, 27 := 0, 38 := 0],
           score := 60\<rparr>)"

lemma wf_top_row_hit_state: "wf_state top_row_hit_state"
proof -
  note wf = wf_initial_state [of no_bullet, unfolded wf_state_def]
  show ?thesis
    unfolding wf_state_def
    using wf
    by (simp add: top_row_hit_state_def Let_def nth_list_update ALIEN_DEAD_def MAX_BULLETS_def)
qed


theorem C1_collision_effect_witness:
  "wf_state top_row_hit_state \<and>
   unat (num_bullets (game top_row_hit_state)) = 1 \<and>
   aliens (game top_row_hit_state) ! 49 = \<lparr>alien_x = 102, alien_y = 196, alien_type = 1\<rparr> \<and>
   current_frame_sprite top_row_hit_state (aliens (game top_row_hit_state) ! 49) =
     Some (alien_sprites ! 0) \<and>
   sprite_width (alien_sprites ! 0) = 8 \<and>
   bullets (game top_row_hit_state) ! 0 = \<lparr>bullet_x = 105, bullet_y = 195, bullet_dir = 2\<rparr> \<and>
   sprite_overlap_check bullet_sprite 105 195 (alien_sprites ! 0) 102 196 \<and>
   score top_row_hit_state = 60 \<and>
   (\<exists>s'. check_aliens 0 top_row_hit_state = Some s' \<and>
         aliens (game s') ! 49 = \<lparr>alien_x = 100, alien_y = 196, alien_type = 0\<rparr> \<and>
         score s' = 90 \<and>
         unat (num_bullets (game s')) = 0)"
proof -
  let ?s = top_row_hit_state
  have b: "aliens (game ?s) ! 49 = \<lparr>alien_x = 102, alien_y = 196, alien_type = 1\<rparr>"
    and e: "unat (num_bullets (game ?s)) = 1"
    and g: "bullets (game ?s) ! 0 = \<lparr>bullet_x = 105, bullet_y = 195, bullet_dir = 2\<rparr>"
    and sc0: "score ?s = 60"
    by (simp_all add: top_row_hit_state_def initial_state_def Let_def alloc_def grid_alien_def
          grid_type_def alien_sprites_def MAX_BULLETS_def)
  have d: "current_frame_sprite ?s \<lparr>alien_x = 102, alien_y = 196, alien_type = 1\<rparr> =
      Some (alien_sprites ! 0)"
    by (simp add: current_frame_sprite_def top_row_hit_state_def initial_state_def Let_def
          initial_animation_def)
  have w: "sprite_width (alien_sprites ! 0) = 8" by (simp add: alien_sprites_def)
  have ov: "sprite_overlap_check bullet_sprite 105 195 (alien_sprites ! 0) 102 196"
    by (simp add: sprite_overlap_check_def bullet_sprite_def alien_sprites_def)
  have live: "alien_type (aliens (game ?s) ! 49) \<noteq> ALIEN_DEAD"
    by (simp add: b ALIEN_DEAD_def)
  have bi: "0 < unat (num_bullets (game ?s))" by (simp add: e)
  have ai: "(49 :: nat) < 55" by simp
  have fr: "current_frame_sprite ?s (aliens (game ?s) ! 49) = Some (alien_sprites ! 0)"
    by (simp add: b d)
  have ov': "sprite_overlap_check bullet_sprite
             (bullet_x (bullets (game ?s) ! 0)) (bullet_y (bullets (game ?s) ! 0))
             (alien_sprites ! 0) (alien_x (aliens (game ?s) ! 49)) (alien_y (aliens (game ?s) ! 49))"
    using ov by (simp add: b g)
  from C1_collision_effect [OF wf_top_row_hit_state bi ai live fr ov']
  obtain h s' where s': "check_aliens 0 ?s = Some s'"
    and t: "alien_type (aliens (game h) ! 49) = ALIEN_DEAD"
    and sc: "score h = score ?s + word_of_nat (10 * (4 - unat (alien_type (aliens (game ?s) ! 49))))"
    and x: "alien_x (aliens (game h) ! 49) =
             alien_x (aliens (game ?s) ! 49) -
             (sprite_width alien_death_sprite - sprite_width (alien_sprites ! 0)) div 2"
    and y: "alien_y (aliens (game h) ! 49) = alien_y (aliens (game ?s) ! 49)"
    and n: "unat (num_bullets (game h)) = unat (num_bullets (game ?s)) - 1"
    and side: "(0 = unat (num_bullets (game ?s)) - 1 \<or>
             (\<forall>aj fj. 49 < aj \<and> aj < 55 \<and> alien_type (aliens (game ?s) ! aj) \<noteq> ALIEN_DEAD \<and>
                 current_frame_sprite ?s (aliens (game ?s) ! aj) = Some fj \<longrightarrow>
                 \<not> sprite_overlap_check bullet_sprite
                     (bullet_x (bullets (game ?s) ! (unat (num_bullets (game ?s)) - 1)))
                     (bullet_y (bullets (game ?s) ! (unat (num_bullets (game ?s)) - 1)))
                     fj (alien_x (aliens (game ?s) ! aj)) (alien_y (aliens (game ?s) ! aj))))
            \<longrightarrow> s' = h"
    by (elim exE conjE)
  from side e have eq: "s' = h" by simp
  from t have t': "alien_type (aliens (game s') ! 49) = 0" by (simp add: eq ALIEN_DEAD_def)
  from sc have sc': "score s' = 90" by (simp add: eq sc0 b)
  from x have x': "alien_x (aliens (game s') ! 49) = 100"
    by (simp add: eq b w alien_death_sprite_def)
  from y have y': "alien_y (aliens (game s') ! 49) = 196" by (simp add: eq b)
  from n have n': "unat (num_bullets (game s')) = 0" by (simp add: eq e)
  from t' x' y' have a': "aliens (game s') ! 49 = \<lparr>alien_x = 100, alien_y = 196, alien_type = 0\<rparr>"
    by (cases "aliens (game s') ! 49") simp
  from s' a' sc' n' have res: "\<exists>s'. check_aliens 0 ?s = Some s' \<and>
         aliens (game s') ! 49 = \<lparr>alien_x = 100, alien_y = 196, alien_type = 0\<rparr> \<and>
         score s' = 90 \<and> unat (num_bullets (game s')) = 0"
    by (intro exI [of _ s'] conjI)
  from wf_top_row_hit_state e b fr w g ov sc0 res show ?thesis by (intro conjI)
qed

lemma next_counter_countdown:
  assumes dead: "alien_type (aliens (game s) ! ai) = ALIEN_DEAD"
    and c: "unat (death_counters s ! ai) = 10 - k"
  shows "unat (next_counter s ai) = 10 - Suc k"
proof (cases "death_counters s ! ai = 0")
  case True
  with c dead show ?thesis by (simp add: next_counter_def)
next
  case False
  then have "unat (death_counters s ! ai - 1) = unat (death_counters s ! ai) - 1"
    by (simp add: unat_minus_one)
  with c dead False show ?thesis by (simp add: next_counter_def)
qed

text \<open>
  Claim C8. In a state of a run (\<open>wf_state\<close>; every state a run from the initial state
  returns is one, by \<open>game_loop_wf\<close> and \<open>wf_initial_state\<close>), for every alien \<open>ai\<close>:
  one simulation step completes and takes 1 from the death counter when the alien was
  DEAD and the counter not 0, and leaves it otherwise; the counter of an alien that is
  not DEAD is 10; if the step is the one in which the alien becomes DEAD, then after
  \<open>n\<close> more iterations of a loop that is still running the counter is \<open>10 - n\<close>, so it
  is 0 from the tenth on and not before; and with the counter at 0 the draw loop's
  body returns the buffer as it got it.
\<close>

theorem C8_death_counter:
  assumes wf: "wf_state s" and ai: "ai < 55"
  shows "(\<exists>s1. update s = Some s1 \<and>
            death_counters s1 ! ai =
              (if alien_type (aliens (game s) ! ai) = ALIEN_DEAD \<and> death_counters s ! ai \<noteq> 0
               then death_counters s ! ai - 1 else death_counters s ! ai)) \<and>
         (alien_type (aliens (game s) ! ai) \<noteq> ALIEN_DEAD \<longrightarrow> death_counters s ! ai = 10) \<and>
         (\<forall>s1 evs batches s'.
            update s = Some s1 \<and>
            alien_type (aliens (game s) ! ai) \<noteq> ALIEN_DEAD \<and>
            alien_type (aliens (game s1) ! ai) = ALIEN_DEAD \<and>
            game_loop batches (poll_events evs s1) = Some s' \<and> game_running s'
            \<longrightarrow> unat (death_counters s' ! ai) = 10 - length batches) \<and>
         (\<forall>buffer. death_counters s ! ai = 0 \<longrightarrow> draw_alien s ai buffer = Some buffer)"
proof (intro conjI allI impI)
  from update_wf [OF wf] obtain s1 where s1: "update s = Some s1" and st: "step_rel s s1"
    by blast
  from st ai have "death_counters s1 ! ai = next_counter s ai" by (simp add: step_rel_def)
  with s1 show "\<exists>s1. update s = Some s1 \<and>
            death_counters s1 ! ai =
              (if alien_type (aliens (game s) ! ai) = ALIEN_DEAD \<and> death_counters s ! ai \<noteq> 0
               then death_counters s ! ai - 1 else death_counters s ! ai)"
    by (simp add: next_counter_def)
next
  assume "alien_type (aliens (game s) ! ai) \<noteq> ALIEN_DEAD"
  with wf ai show "death_counters s ! ai = 10" by (auto simp: wf_state_def)
next
  fix s1 evs batches s'
  assume a: "update s = Some s1 \<and>
            alien_type (aliens (game s) ! ai) \<noteq> ALIEN_DEAD \<and>
            alien_type (aliens (game s1) ! ai) = ALIEN_DEAD \<and>
            game_loop batches (poll_events evs s1) = Some s' \<and> game_running s'"
  from update_wf [OF wf] a have wf1: "wf_state s1" and st: "step_rel s s1" by auto
  from a wf ai have ten: "death_counters s ! ai = 10" by (auto simp: wf_state_def)
  from st ai a ten have c1: "death_counters s1 ! ai = 10"
    by (simp add: step_rel_def next_counter_def)
  let ?I = "\<lambda>k t. alien_type (aliens (game t) ! ai) = ALIEN_DEAD \<and>
                  unat (death_counters t ! ai) = 10 - k"
  have "?I (0 + length batches) s'"
  proof (rule game_loop_steps [where I = ?I, OF _ wf_state_poll [OF wf1, of evs]])
    show "?I 0 (poll_events evs s1)" using a c1 by (simp add: poll_events_fields)
  next
    show "game_loop batches (poll_events evs s1) = Some s'" using a by simp
  next
    show "game_running s'" using a by simp
  next
    fix k t t' es
    assume "wf_state t" and I: "?I k t" and "update t = Some t'" and r: "step_rel t t'"
    from r I have "alien_type (aliens (game t') ! ai) = ALIEN_DEAD" by (simp add: step_rel_def)
    moreover from r ai have "death_counters t' ! ai = next_counter t ai" by (simp add: step_rel_def)
    ultimately show "?I (Suc k) (poll_events es t')"
      using next_counter_countdown [of t ai k] I by (simp add: poll_events_fields)
  qed
  then show "unat (death_counters s' ! ai) = 10 - length batches" by simp
next
  fix buffer
  assume "death_counters s ! ai = 0"
  with wf ai show "draw_alien s ai buffer = Some buffer" by (simp add: draw_alien_def wf_state_def)
qed


text \<open>
  A state of play with two bullets in flight, both fired with the player at \<open>x = 105\<close>:
  the first is at \<open>y = 125\<close>, one step below the alien at index 5 (row 0, column 5,
  at \<open>(100, 128)\<close>); the second was fired in the previous iteration and is at
  \<open>y = 39\<close>.
\<close>

definition two_bullet_state :: State where
  "two_bullet_state =
     (let s = initial_state no_bullet; g = game s
      in s\<lparr>game := g\<lparr>num_bullets := 2,
                      bullets := (bullets g)[0 := \<lparr>bullet_x = 110, bullet_y = 125, bullet_dir = 2\<rparr>,
                                            1 := \<lparr>bullet_x = 110, bullet_y = 39, bullet_dir = 2\<rparr>],
                      player := \<lparr>player_x = 105, player_y = 32, player_life = 3\<rparr>\<rparr>\<rparr>)"

lemma wf_two_bullet_state: "wf_state two_bullet_state"
  using wf_initial_state [of no_bullet]
  by (simp add: wf_state_def two_bullet_state_def Let_def MAX_BULLETS_def)

lemma update_two_bullet_state:
  "map_option (\<lambda>s. (num_bullets (game s), bullets (game s) ! 0, aliens (game s) ! 5,
                    death_counters s ! 5, score s))
     (update two_bullet_state) =
   Some (1, \<lparr>bullet_x = 110, bullet_y = 39, bullet_dir = 2\<rparr>,
         \<lparr>alien_x = 100, alien_y = 128, alien_type = 0\<rparr>, 10, 10)"
  by code_simp


theorem C8_death_counter_witness:
  "wf_state two_bullet_state \<and> (5::nat) < 55 \<and>
   alien_type (aliens (game two_bullet_state) ! 5) = 3 \<and>
   death_counters two_bullet_state ! 5 = 10 \<and>
   (\<exists>s1 s9 s10.
      update two_bullet_state = Some s1 \<and>
      alien_type (aliens (game s1) ! 5) = ALIEN_DEAD \<and>
      death_counters s1 ! 5 = 10 \<and>
      game_loop (replicate 9 []) (poll_events [] s1) = Some s9 \<and> game_running s9 \<and>
      unat (death_counters s9 ! 5) = 1 \<and>
      game_loop (replicate 10 []) (poll_events [] s1) = Some s10 \<and> game_running s10 \<and>
      death_counters s10 ! 5 = 0 \<and>
      draw_alien s10 5 \<lparr>buffer_width = 0, buffer_height = 0, buffer_data = []\<rparr> =
        Some \<lparr>buffer_width = 0, buffer_height = 0, buffer_data = []\<rparr>)"
proof -
  have five: "(5::nat) < 55" by simp
  note c8 = C8_death_counter [OF wf_two_bullet_state five]
  have t: "alien_type (aliens (game two_bullet_state) ! 5) = 3"
    and d: "death_counters two_bullet_state ! 5 = 10"
    and run: "game_running two_bullet_state"
    by (simp_all add: two_bullet_state_def initial_state_def Let_def grid_alien_def grid_type_def)
  from t have live: "alien_type (aliens (game two_bullet_state) ! 5) \<noteq> ALIEN_DEAD"
    by (simp add: ALIEN_DEAD_def)
  from update_two_bullet_state obtain s1 where s1: "update two_bullet_state = Some s1"
    and dead: "alien_type (aliens (game s1) ! 5) = ALIEN_DEAD"
    by (auto simp: ALIEN_DEAD_def)
  from c8 s1 live have d1: "death_counters s1 ! 5 = 10" by (auto simp: d)
  from update_wf [OF wf_two_bullet_state] s1 have wf1: "wf_state s1" and st: "step_rel two_bullet_state s1"
    by auto
  have p: "poll_events [] s1 = s1" by (simp add: poll_events_def)
  from st run have run1: "game_running s1" by (simp add: step_rel_def)
  from game_loop_quiet [OF wf1 run1, of 9] obtain s9 where
    s9: "game_loop (replicate 9 []) (poll_events [] s1) = Some s9" "game_running s9"
    unfolding p by blast
  from game_loop_quiet [OF wf1 run1, of 10] obtain s10 where
    s10: "game_loop (replicate 10 []) (poll_events [] s1) = Some s10" "game_running s10" "wf_state s10"
    unfolding p by blast
  from c8 s1 live dead s9 have n9: "unat (death_counters s9 ! 5) = 10 - length (replicate 9 ([] :: (Key \<times> Action) list))"
    by blast
  from c8 s1 live dead s10 have n10: "unat (death_counters s10 ! 5) = 10 - length (replicate 10 ([] :: (Key \<times> Action) list))"
    by blast
  from n10 have z: "death_counters s10 ! 5 = 0" by (simp add: unat_eq_0)
  from C8_death_counter [OF s10(3) five] z
  have dr: "draw_alien s10 5 \<lparr>buffer_width = 0, buffer_height = 0, buffer_data = []\<rparr> =
        Some \<lparr>buffer_width = 0, buffer_height = 0, buffer_data = []\<rparr>"
    by blast
  from n9 have n9': "unat (death_counters s9 ! 5) = 1" by simp
  from s1 dead d1 s9 n9' s10(1,2) z dr
  have "\<exists>s1 s9 s10.
      update two_bullet_state = Some s1 \<and>
      alien_type (aliens (game s1) ! 5) = ALIEN_DEAD \<and>
      death_counters s1 ! 5 = 10 \<and>
      game_loop (replicate 9 []) (poll_events [] s1) = Some s9 \<and> game_running s9 \<and>
      unat (death_counters s9 ! 5) = 1 \<and>
      game_loop (replicate 10 []) (poll_events [] s1) = Some s10 \<and> game_running s10 \<and>
      death_counters s10 ! 5 = 0 \<and>
      draw_alien s10 5 \<lparr>buffer_width = 0, buffer_height = 0, buffer_data = []\<rparr> =
        Some \<lparr>buffer_width = 0, buffer_height = 0, buffer_data = []\<rparr>"
    by (intro exI [of _ s1] exI [of _ s9] exI [of _ s10] conjI)
  with wf_two_bullet_state five t d show ?thesis by (intro conjI)
qed

text \<open>
  Claim C2, at \<open>two_bullet_state\<close>. The first bullet moves to \<open>y = 127\<close> and hits the
  alien at index 5; the hit copies the second bullet into slot 0, and the loop then
  moves on to slot 1, beyond the pool's end. After the simulation step the second
  bullet is the one bullet of the pool, and its \<open>y\<close> is still 39.
\<close>

theorem C2_swapped_bullet_not_advanced:
  "num_bullets (game two_bullet_state) = 2 \<and>
   bullets (game two_bullet_state) ! 0 = \<lparr>bullet_x = 110, bullet_y = 125, bullet_dir = 2\<rparr> \<and>
   bullets (game two_bullet_state) ! 1 = \<lparr>bullet_x = 110, bullet_y = 39, bullet_dir = 2\<rparr> \<and>
   (\<exists>s'. update two_bullet_state = Some s' \<and>
         num_bullets (game s') = 1 \<and>
         bullets (game s') ! 0 = \<lparr>bullet_x = 110, bullet_y = 39, bullet_dir = 2\<rparr> \<and>
         alien_type (aliens (game s') ! 5) = ALIEN_DEAD)"
proof -
  have "num_bullets (game two_bullet_state) = 2 \<and>
   bullets (game two_bullet_state) ! 0 = \<lparr>bullet_x = 110, bullet_y = 125, bullet_dir = 2\<rparr> \<and>
   bullets (game two_bullet_state) ! 1 = \<lparr>bullet_x = 110, bullet_y = 39, bullet_dir = 2\<rparr>"
    by (simp add: two_bullet_state_def initial_state_def Let_def alloc_def MAX_BULLETS_def)
  moreover from update_two_bullet_state
  have "\<exists>s'. update two_bullet_state = Some s' \<and>
         num_bullets (game s') = 1 \<and>
         bullets (game s') ! 0 = \<lparr>bullet_x = 110, bullet_y = 39, bullet_dir = 2\<rparr> \<and>
         alien_type (aliens (game s') ! 5) = ALIEN_DEAD"
    by (auto simp: ALIEN_DEAD_def)
  ultimately show ?thesis by simp
qed

section \<open>Drawing a sprite\<close>

lemma size_t_of_unat: "(word_of_nat (unat (w :: size_t)) :: size_t) = w"
  by simp

lemma mask_index:
  fixes w :: size_t
  assumes "xi < unat w" "yi < h" "unat w * h < 2 ^ 64"
  shows "unat (word_of_nat yi * w + word_of_nat xi) = yi * unat w + xi"
proof -
  have "yi * unat w + xi < Suc yi * unat w" using assms(1) by simp
  also have "\<dots> \<le> h * unat w" using assms(2) by (intro mult_le_mono1) simp
  finally have lt: "yi * unat w + xi < 2 ^ 64" using assms(3) by (simp add: mult.commute)
  have "word_of_nat yi * w + word_of_nat xi = (word_of_nat (yi * unat w + xi) :: size_t)"
    by simp
  then show ?thesis using unat_of_nat_size_t [OF lt] by simp
qed

lemma pixel_index:
  fixes row col bw bh :: size_t
  assumes "row < bh" "col < bw" "unat bw * unat bh < 2 ^ 64"
  shows "unat (row * bw + col) = unat row * unat bw + unat col"
    and "unat row * unat bw + unat col < unat bw * unat bh"
proof -
  from assms have r: "unat row < unat bh" and c: "unat col < unat bw"
    by (simp_all add: word_less_nat_alt)
  have "unat row * unat bw + unat col < Suc (unat row) * unat bw" using c by simp
  also have "\<dots> \<le> unat bh * unat bw" using r by (intro mult_le_mono1) simp
  finally show lt: "unat row * unat bw + unat col < unat bw * unat bh" by (simp add: mult.commute)
  with assms(3) have lt': "unat row * unat bw + unat col < 2 ^ 64" by simp
  have "row * bw + col = (word_of_nat (unat row * unat bw + unat col) :: size_t)"
    by simp
  then show "unat (row * bw + col) = unat row * unat bw + unat col"
    using unat_of_nat_size_t [OF lt'] by simp
qed

lemma cell_unique:
  fixes a b c d n :: nat
  assumes "b < n" "d < n" "a * n + b = c * n + d"
  shows "a = c \<and> b = d"
proof -
  from assms have "(a * n + b) div n = (c * n + d) div n" "(a * n + b) mod n = (c * n + d) mod n"
    by simp_all
  with assms(1,2) show ?thesis by simp
qed


text \<open>
  \<open>lit\<close>: the loop body at \<open>(xi, yi)\<close> finds the mask bit set and the destination
  inside the buffer. \<open>plotted_upto k\<close>: the buffer pixel \<open>(px, py)\<close> is the destination
  of such a body among the first \<open>k\<close> the loops run (the body at \<open>(xi, yi)\<close> is number
  \<open>xi * height + yi\<close>).
\<close>

definition lit :: "Sprite \<Rightarrow> size_t \<Rightarrow> size_t \<Rightarrow> Buffer \<Rightarrow> nat \<Rightarrow> nat \<Rightarrow> bool" where
  "lit sprite x y buffer xi yi \<longleftrightarrow>
     sprite_data sprite ! (yi * unat (sprite_width sprite) + xi) \<noteq> 0 \<and>
     sprite_height sprite - 1 + y - word_of_nat yi < buffer_height buffer \<and>
     x + word_of_nat xi < buffer_width buffer"

definition plotted_upto ::
  "nat \<Rightarrow> Sprite \<Rightarrow> size_t \<Rightarrow> size_t \<Rightarrow> Buffer \<Rightarrow> nat \<Rightarrow> nat \<Rightarrow> bool" where
  "plotted_upto k sprite x y buffer px py \<longleftrightarrow>
     (\<exists>xi yi. yi < unat (sprite_height sprite) \<and> xi * unat (sprite_height sprite) + yi < k \<and>
        lit sprite x y buffer xi yi \<and>
        unat (x + word_of_nat xi) = px \<and>
        unat (sprite_height sprite - 1 + y - word_of_nat yi) = py)"

definition drawn_upto ::
  "nat \<Rightarrow> Sprite \<Rightarrow> size_t \<Rightarrow> size_t \<Rightarrow> uint32_t \<Rightarrow> Buffer \<Rightarrow> Buffer \<Rightarrow> bool" where
  "drawn_upto k sprite x y color b0 b \<longleftrightarrow>
     buffer_width b = buffer_width b0 \<and> buffer_height b = buffer_height b0 \<and>
     length (buffer_data b) = length (buffer_data b0) \<and>
     (\<forall>px py. px < unat (buffer_width b0) \<and> py < unat (buffer_height b0) \<longrightarrow>
        buffer_data b ! (py * unat (buffer_width b0) + px) =
          (if plotted_upto k sprite x y b0 px py then color
           else buffer_data b0 ! (py * unat (buffer_width b0) + px)))"

lemma plotted_upto_Suc:
  assumes "yi < unat (sprite_height sprite)"
  shows "plotted_upto (Suc (xi * unat (sprite_height sprite) + yi)) sprite x y buffer px py \<longleftrightarrow>
         plotted_upto (xi * unat (sprite_height sprite) + yi) sprite x y buffer px py \<or>
         (lit sprite x y buffer xi yi \<and> unat (x + word_of_nat xi) = px \<and>
          unat (sprite_height sprite - 1 + y - word_of_nat yi) = py)"
proof -
  let ?H = "unat (sprite_height sprite)"
  have "xi' = xi \<and> yi' = yi"
    if "yi' < ?H" "xi' * ?H + yi' < Suc (xi * ?H + yi)" "\<not> xi' * ?H + yi' < xi * ?H + yi"
    for xi' yi'
  proof -
    from that have "xi' * ?H + yi' = xi * ?H + yi" by simp
    from cell_unique [OF that(1) assms this] show ?thesis .
  qed
  then show ?thesis
    unfolding plotted_upto_def using assms by (auto simp: less_Suc_eq)
qed


lemma draw_pixel_step:
  assumes buf: "length (buffer_data b0) = unat (buffer_width b0) * unat (buffer_height b0)"
      "length (buffer_data b0) < 2 ^ 64"
    and spr: "unat (sprite_width sprite) * unat (sprite_height sprite) \<le> length (sprite_data sprite)"
      "length (sprite_data sprite) < 2 ^ 64"
    and xi: "xi < unat (sprite_width sprite)" and yi: "yi < unat (sprite_height sprite)"
    and inv: "drawn_upto (xi * unat (sprite_height sprite) + yi) sprite x y color b0 b"
  shows "\<exists>b'. draw_pixel sprite x y color xi yi b = Some b' \<and>
           drawn_upto (Suc (xi * unat (sprite_height sprite) + yi)) sprite x y color b0 b'"
proof -
  let ?W = "unat (sprite_width sprite)" and ?H = "unat (sprite_height sprite)"
  let ?BW = "unat (buffer_width b0)" and ?BH = "unat (buffer_height b0)"
  let ?row = "sprite_height sprite - 1 + y - word_of_nat yi"
  let ?col = "x + word_of_nat xi"
  let ?k = "xi * ?H + yi"
  from spr have wh: "?W * ?H < 2 ^ 64" by simp
  have mi: "unat (word_of_nat yi * sprite_width sprite + word_of_nat xi :: size_t) = yi * ?W + xi"
    by (rule mask_index [OF xi yi wh])
  have "yi * ?W + xi < Suc yi * ?W" using xi by simp
  also have "\<dots> \<le> ?H * ?W" using yi by (intro mult_le_mono1) simp
  finally have mil: "yi * ?W + xi < length (sprite_data sprite)" using spr(1) by (simp add: mult.commute)
  from inv have w: "buffer_width b = buffer_width b0" and h: "buffer_height b = buffer_height b0"
    and len: "length (buffer_data b) = length (buffer_data b0)"
    and px: "\<And>px py. px < ?BW \<Longrightarrow> py < ?BH \<Longrightarrow>
        buffer_data b ! (py * ?BW + px) =
          (if plotted_upto ?k sprite x y b0 px py then color else buffer_data b0 ! (py * ?BW + px))"
    by (simp_all add: drawn_upto_def)
  show ?thesis
  proof (cases "lit sprite x y b0 xi yi")
    case False
    then have "draw_pixel sprite x y color xi yi b = Some b"
      using mil by (auto simp: draw_pixel_def Let_def mi lit_def w h)
    moreover have "drawn_upto (Suc ?k) sprite x y color b0 b"
      using inv False by (simp add: drawn_upto_def plotted_upto_Suc [OF yi])
    ultimately show ?thesis by simp
  next
    case True
    then have r: "?row < buffer_height b0" and c: "?col < buffer_width b0"
      and m: "sprite_data sprite ! (yi * ?W + xi) \<noteq> 0"
      by (simp_all add: lit_def)
    from buf have bb: "?BW * ?BH < 2 ^ 64" by simp
    note di = pixel_index [OF r c bb]
    from r c have rn: "unat ?row < ?BH" and cn: "unat ?col < ?BW" by (simp_all add: word_less_nat_alt)
    let ?b' = "b\<lparr>buffer_data := (buffer_data b)[unat ?row * ?BW + unat ?col := color]\<rparr>"
    have res: "draw_pixel sprite x y color xi yi b = Some ?b'"
      using mil m r c di buf(1) len by (simp add: draw_pixel_def Let_def mi w h)
    have "drawn_upto (Suc ?k) sprite x y color b0 ?b'"
      unfolding drawn_upto_def
    proof (intro conjI allI impI)
      fix px py assume p: "px < ?BW \<and> py < ?BH"
      have in_range: "py * ?BW + px < length (buffer_data b)"
      proof -
        have "py * ?BW + px < Suc py * ?BW" using p by simp
        also have "\<dots> \<le> ?BH * ?BW" using p by (intro mult_le_mono1) simp
        finally show ?thesis using buf(1) len by (simp add: mult.commute)
      qed
      show "buffer_data ?b' ! (py * ?BW + px) =
          (if plotted_upto (Suc ?k) sprite x y b0 px py then color
           else buffer_data b0 ! (py * ?BW + px))"
      proof (cases "py = unat ?row \<and> px = unat ?col")
        case here: True
        with True have "plotted_upto (Suc ?k) sprite x y b0 px py"
          by (simp add: plotted_upto_Suc [OF yi])
        with here in_range show ?thesis by simp
      next
        case elsewhere: False
        have ne: "unat ?row * ?BW + unat ?col \<noteq> py * ?BW + px"
        proof
          assume "unat ?row * ?BW + unat ?col = py * ?BW + px"
          from cell_unique [OF cn _ this] p elsewhere show False by simp
        qed
        from elsewhere have "plotted_upto (Suc ?k) sprite x y b0 px py \<longleftrightarrow>
            plotted_upto ?k sprite x y b0 px py"
          by (auto simp: plotted_upto_Suc [OF yi])
        with ne px p show ?thesis by simp
      qed
    qed (simp_all add: w h len)
    with res show ?thesis by simp
  qed
qed


lemma draw_column:
  assumes buf: "length (buffer_data b0) = unat (buffer_width b0) * unat (buffer_height b0)"
      "length (buffer_data b0) < 2 ^ 64"
    and spr: "unat (sprite_width sprite) * unat (sprite_height sprite) \<le> length (sprite_data sprite)"
      "length (sprite_data sprite) < 2 ^ 64"
    and xi: "xi < unat (sprite_width sprite)"
    and inv: "drawn_upto (xi * unat (sprite_height sprite)) sprite x y color b0 b"
  shows "\<exists>b'. for_loop [0..<unat (sprite_height sprite)] (draw_pixel sprite x y color xi) b = Some b' \<and>
           drawn_upto (Suc xi * unat (sprite_height sprite)) sprite x y color b0 b'"
proof -
  let ?H = "unat (sprite_height sprite)"
  let ?I = "\<lambda>yi. drawn_upto (xi * ?H + yi) sprite x y color b0"
  have "\<exists>b'. for_loop [0..<?H] (draw_pixel sprite x y color xi) b = Some b' \<and> ?I ?H b'"
  proof (rule for_loop_upt_invariant [where I = ?I])
    show "?I 0 b" using inv by simp
  next
    fix yi b1
    assume "yi < ?H" "?I yi b1"
    from draw_pixel_step [OF buf spr xi this]
    show "\<exists>s'. draw_pixel sprite x y color xi yi b1 = Some s' \<and> ?I (Suc yi) s'" by simp
  qed
  moreover have "xi * ?H + ?H = Suc xi * ?H" by simp
  ultimately show ?thesis by (simp only:)
qed

lemma plotted_upto_all:
  "plotted_upto (unat (sprite_width sprite) * unat (sprite_height sprite)) sprite x y buffer px py \<longleftrightarrow>
     (\<exists>xi yi. xi < unat (sprite_width sprite) \<and> yi < unat (sprite_height sprite) \<and>
        lit sprite x y buffer xi yi \<and>
        unat (x + word_of_nat xi) = px \<and>
        unat (sprite_height sprite - 1 + y - word_of_nat yi) = py)"
proof -
  let ?W = "unat (sprite_width sprite)" and ?H = "unat (sprite_height sprite)"
  have "xi * ?H + yi < ?W * ?H \<longleftrightarrow> xi < ?W" if "yi < ?H" for xi yi
  proof
    assume a: "xi * ?H + yi < ?W * ?H"
    show "xi < ?W"
    proof (rule ccontr)
      assume "\<not> xi < ?W"
      then have "?W * ?H \<le> xi * ?H" by (intro mult_le_mono1) simp
      with a show False by simp
    qed
  next
    assume "xi < ?W"
    have "xi * ?H + yi < Suc xi * ?H" using that by simp
    also have "\<dots> \<le> ?W * ?H" using \<open>xi < ?W\<close> by (intro mult_le_mono1) simp
    finally show "xi * ?H + yi < ?W * ?H" .
  qed
  then show ?thesis unfolding plotted_upto_def by blast
qed

text \<open>
  Claim C4. For a sprite whose mask holds \<open>width * height\<close> entries and a buffer whose
  pixel array holds \<open>width * height\<close> pixels (arrays that fit the address space), for
  every anchor \<open>(x, y)\<close> and colour: \<^verbatim>\<open>buffer_draw_sprite\<close> completes, so it made no
  access outside the mask or the pixel array; it keeps the buffer's dimensions; and the
  pixel at \<open>(px, py)\<close> inside the buffer holds the colour if it is the destination
  \<open>(x + xi, height - 1 + y - yi)\<close> (computed in \<^verbatim>\<open>size_t\<close>) of a set mask bit
  \<open>(xi, yi)\<close>, and what it held before otherwise. A destination outside the buffer
  changes nothing.
\<close>

theorem C4_draw_sprite_clipped:
  assumes "length (buffer_data buffer) = unat (buffer_width buffer) * unat (buffer_height buffer)"
    and "length (buffer_data buffer) < 2 ^ 64"
    and "unat (sprite_width sprite) * unat (sprite_height sprite) \<le> length (sprite_data sprite)"
    and "length (sprite_data sprite) < 2 ^ 64"
  shows "\<exists>buffer'. buffer_draw_sprite buffer sprite x y color = Some buffer' \<and>
           buffer_width buffer' = buffer_width buffer \<and>
           buffer_height buffer' = buffer_height buffer \<and>
           length (buffer_data buffer') = length (buffer_data buffer) \<and>
           (\<forall>px py. px < unat (buffer_width buffer) \<and> py < unat (buffer_height buffer) \<longrightarrow>
              buffer_data buffer' ! (py * unat (buffer_width buffer) + px) =
                (if \<exists>xi yi. xi < unat (sprite_width sprite) \<and> yi < unat (sprite_height sprite) \<and>
                       sprite_data sprite ! (yi * unat (sprite_width sprite) + xi) \<noteq> 0 \<and>
                       unat (x + word_of_nat xi) = px \<and>
                       unat (sprite_height sprite - 1 + y - word_of_nat yi) = py
                 then color
                 else buffer_data buffer ! (py * unat (buffer_width buffer) + px)))"
proof -
  let ?W = "unat (sprite_width sprite)" and ?H = "unat (sprite_height sprite)"
  let ?I = "\<lambda>xi. drawn_upto (xi * ?H) sprite x y color buffer"
  have "\<exists>b'. for_loop [0..<?W]
           (\<lambda>xi. for_loop [0..<?H] (draw_pixel sprite x y color xi)) buffer = Some b' \<and> ?I ?W b'"
  proof (rule for_loop_upt_invariant [where I = ?I])
    show "?I 0 buffer" by (simp add: drawn_upto_def plotted_upto_def)
  next
    fix xi b
    assume "xi < ?W" "?I xi b"
    from draw_column [OF assms this]
    show "\<exists>s'. for_loop [0..<?H] (draw_pixel sprite x y color xi) b = Some s' \<and> ?I (Suc xi) s'" .
  qed
  then obtain b' where res: "buffer_draw_sprite buffer sprite x y color = Some b'"
    and d: "drawn_upto (?W * ?H) sprite x y color buffer b'"
    by (auto simp: buffer_draw_sprite_def)
  have eq: "plotted_upto (?W * ?H) sprite x y buffer px py \<longleftrightarrow>
      (\<exists>xi yi. xi < ?W \<and> yi < ?H \<and>
         sprite_data sprite ! (yi * ?W + xi) \<noteq> 0 \<and>
         unat (x + word_of_nat xi) = px \<and>
         unat (sprite_height sprite - 1 + y - word_of_nat yi) = py)"
    if "px < unat (buffer_width buffer)" "py < unat (buffer_height buffer)" for px py
    unfolding plotted_upto_all lit_def using that by (auto simp: word_less_nat_alt)
  from d have "\<forall>px py. px < unat (buffer_width buffer) \<and> py < unat (buffer_height buffer) \<longrightarrow>
              buffer_data b' ! (py * unat (buffer_width buffer) + px) =
                (if \<exists>xi yi. xi < ?W \<and> yi < ?H \<and>
                       sprite_data sprite ! (yi * ?W + xi) \<noteq> 0 \<and>
                       unat (x + word_of_nat xi) = px \<and>
                       unat (sprite_height sprite - 1 + y - word_of_nat yi) = py
                 then color
                 else buffer_data buffer ! (py * unat (buffer_width buffer) + px))"
    by (simp add: drawn_upto_def eq)
  with res d show ?thesis by (simp add: drawn_upto_def)
qed


text \<open>
  A 2 by 2 sprite drawn at \<open>(3, 1)\<close> into a 4 by 3 buffer: its left column lands in the
  buffer's last column, its right column is clipped.
\<close>

definition corner_sprite :: Sprite where
  "corner_sprite = \<lparr>sprite_width = 2, sprite_height = 2, sprite_data = [1, 0, 1, 1]\<rparr>"

definition small_buffer :: Buffer where
  "small_buffer = \<lparr>buffer_width = 4, buffer_height = 3,
                    buffer_data = [0, 0, 0, 0, 0, 0, 0, 0, 0, 0, 0, 0]\<rparr>"

lemma draw_corner_sprite:
  "buffer_draw_sprite small_buffer corner_sprite 3 1 7 =
     Some \<lparr>buffer_width = 4, buffer_height = 3,
           buffer_data = [0, 0, 0, 0, 0, 0, 0, 7, 0, 0, 0, 7]\<rparr>"
  by code_simp

theorem C4_draw_sprite_clipped_witness:
  "length (buffer_data small_buffer) = unat (buffer_width small_buffer) * unat (buffer_height small_buffer) \<and>
   length (buffer_data small_buffer) < 2 ^ 64 \<and>
   unat (sprite_width corner_sprite) * unat (sprite_height corner_sprite) \<le> length (sprite_data corner_sprite) \<and>
   length (sprite_data corner_sprite) < 2 ^ 64 \<and>
   buffer_draw_sprite small_buffer corner_sprite 3 1 7 =
     Some \<lparr>buffer_width = 4, buffer_height = 3,
           buffer_data = [0, 0, 0, 0, 0, 0, 0, 7, 0, 0, 0, 7]\<rparr> \<and>
   (\<exists>buffer'. buffer_draw_sprite small_buffer corner_sprite 3 1 7 = Some buffer' \<and>
      length (buffer_data buffer') = 12 \<and>
      buffer_data buffer' ! (1 * 4 + 3) = 7 \<and>
      buffer_data buffer' ! (1 * 4 + 2) = 0)"
proof -
  have h: "length (buffer_data small_buffer) = unat (buffer_width small_buffer) * unat (buffer_height small_buffer)"
    "length (buffer_data small_buffer) < 2 ^ 64"
    "unat (sprite_width corner_sprite) * unat (sprite_height corner_sprite) \<le> length (sprite_data corner_sprite)"
    "length (sprite_data corner_sprite) < 2 ^ 64"
    by (simp_all add: small_buffer_def corner_sprite_def)
  from C4_draw_sprite_clipped [OF h, of 3 1 7] obtain b' where
    res: "buffer_draw_sprite small_buffer corner_sprite 3 1 7 = Some b'"
    and len: "length (buffer_data b') = length (buffer_data small_buffer)"
    and px: "\<And>px py. px < unat (buffer_width small_buffer) \<Longrightarrow> py < unat (buffer_height small_buffer) \<Longrightarrow>
              buffer_data b' ! (py * unat (buffer_width small_buffer) + px) =
                (if \<exists>xi yi. xi < unat (sprite_width corner_sprite) \<and> yi < unat (sprite_height corner_sprite) \<and>
                       sprite_data corner_sprite ! (yi * unat (sprite_width corner_sprite) + xi) \<noteq> 0 \<and>
                       unat (3 + word_of_nat xi :: size_t) = px \<and>
                       unat (sprite_height corner_sprite - 1 + 1 - word_of_nat yi) = py
                 then 7
                 else buffer_data small_buffer ! (py * unat (buffer_width small_buffer) + px))"
    by blast
  have in1: "\<exists>xi yi. xi < unat (sprite_width corner_sprite) \<and> yi < unat (sprite_height corner_sprite) \<and>
                       sprite_data corner_sprite ! (yi * unat (sprite_width corner_sprite) + xi) \<noteq> 0 \<and>
                       unat (3 + word_of_nat xi :: size_t) = 3 \<and>
                       unat (sprite_height corner_sprite - 1 + 1 - word_of_nat yi) = 1"
    by (rule exI [of _ 0], rule exI [of _ 1]) (simp add: corner_sprite_def)
  have out: "\<not> (\<exists>xi yi. xi < unat (sprite_width corner_sprite) \<and> yi < unat (sprite_height corner_sprite) \<and>
                       sprite_data corner_sprite ! (yi * unat (sprite_width corner_sprite) + xi) \<noteq> 0 \<and>
                       unat (3 + word_of_nat xi :: size_t) = 2 \<and>
                       unat (sprite_height corner_sprite - 1 + 1 - word_of_nat yi) = 1)"
    by (auto simp: corner_sprite_def less_2_cases_iff)
  from px [of 3 1] in1 have a: "buffer_data b' ! (1 * 4 + 3) = 7"
    by (simp add: small_buffer_def)
  from px [of 2 1] out have b: "buffer_data b' ! (1 * 4 + 2) = 0"
    by (simp add: small_buffer_def)
  from len have l: "length (buffer_data b') = 12" by (simp add: small_buffer_def)
  from res l a b have "\<exists>buffer'. buffer_draw_sprite small_buffer corner_sprite 3 1 7 = Some buffer' \<and>
      length (buffer_data buffer') = 12 \<and>
      buffer_data buffer' ! (1 * 4 + 3) = 7 \<and>
      buffer_data buffer' ! (1 * 4 + 2) = 0"
    by blast
  with h draw_corner_sprite show ?thesis by (intro conjI)
qed

section \<open>Drawing text\<close>

lemma glyph_range_table:
  "\<forall>n \<in> set [0..<256].
     (let ch = (word_of_nat n :: 8 word) - 32
      in (\<not> (ch <s 0 \<or> 65 \<le>s ch)) = (32 \<le> n \<and> n < 97) \<and>
         (if 32 \<le> n \<and> n < 97 then (scast ch :: size_t) = word_of_nat (n - 32) else True))"
  by code_simp

lemma glyph_range:
  fixes c :: char
  defines "ch \<equiv> (of_char c :: 8 word) - 32"
  shows "(ch <s 0 \<or> 65 \<le>s ch) \<longleftrightarrow> \<not> (32 \<le> (of_char c :: nat) \<and> (of_char c :: nat) < 97)"
    and "32 \<le> (of_char c :: nat) \<Longrightarrow> (of_char c :: nat) < 97 \<Longrightarrow>
           (scast ch :: size_t) = word_of_nat (of_char c - 32)"
proof -
  have "(of_char c :: nat) mod 256 = of_char c" by simp
  then have lt: "(of_char c :: nat) < 256" by (metis mod_less_divisor zero_less_numeral)
  have w: "(of_char c :: 8 word) = word_of_nat (of_char c)" by (simp add: of_nat_of_char)
  from lt have "(of_char c :: nat) \<in> set [0..<256]" by simp
  from glyph_range_table [rule_format, OF this]
  show "(ch <s 0 \<or> 65 \<le>s ch) \<longleftrightarrow> \<not> (32 \<le> (of_char c :: nat) \<and> (of_char c :: nat) < 97)"
    and "32 \<le> (of_char c :: nat) \<Longrightarrow> (of_char c :: nat) < 97 \<Longrightarrow>
           (scast ch :: size_t) = word_of_nat (of_char c - 32)"
    unfolding ch_def w Let_def by auto
qed


text \<open>
  The glyphs a text shows: the characters before the terminator whose code point lies
  in \<open>[32, 97)\<close>, each as its glyph index \<open>code point - 32\<close>, in order.
\<close>

definition glyphs_of :: "string \<Rightarrow> nat list" where
  "glyphs_of text =
     map (\<lambda>c. of_char c - 32)
       (filter (\<lambda>c. 32 \<le> (of_char c :: nat) \<and> (of_char c :: nat) < 97)
          (takeWhile (\<lambda>c. c \<noteq> CHR 0x00) text))"

text \<open>Glyph \<open>k\<close> of a sheet: the sheet's data from \<open>k * width * height\<close> on.\<close>

definition glyph :: "Sprite \<Rightarrow> nat \<Rightarrow> Sprite" where
  "glyph sheet k =
     sheet\<lparr>sprite_data :=
       drop (unat (word_of_nat k * (sprite_width sheet * sprite_height sheet) :: size_t))
         (sprite_data sheet)\<rparr>"

text \<open>
  Drawing a list of glyphs left to right from \<open>x\<close>: number \<open>k\<close> of the list goes to
  \<open>x + k * (width + 1)\<close>.
\<close>

definition draw_glyphs ::
  "Buffer \<Rightarrow> Sprite \<Rightarrow> nat list \<Rightarrow> size_t \<Rightarrow> size_t \<Rightarrow> uint32_t \<Rightarrow> Buffer option" where
  "draw_glyphs buffer sheet ks x y color =
     for_loop [0..<length ks]
       (\<lambda>k b. buffer_draw_sprite b (glyph sheet (ks ! k))
                 (x + word_of_nat k * (sprite_width sheet + 1)) y color)
       buffer"

text \<open>
  The text drawing the claim describes: a character outside the sheet draws nothing and
  advances the cursor all the same.
\<close>

fun claimed_draw_text ::
  "Sprite \<Rightarrow> size_t \<Rightarrow> uint32_t \<Rightarrow> string \<Rightarrow> size_t \<Rightarrow> Buffer \<Rightarrow> Buffer option" where
  "claimed_draw_text sheet y color [] xp buffer = Some buffer"
| "claimed_draw_text sheet y color (c # text) xp buffer =
     (if c = CHR 0x00 then Some buffer
      else if 32 \<le> (of_char c :: nat) \<and> (of_char c :: nat) < 97
      then (case buffer_draw_sprite buffer (glyph sheet (of_char c - 32)) xp y color of
              None \<Rightarrow> None
            | Some buffer' \<Rightarrow> claimed_draw_text sheet y color text (xp + (sprite_width sheet + 1)) buffer')
      else claimed_draw_text sheet y color text (xp + (sprite_width sheet + 1)) buffer)"

lemma for_loop_map: "for_loop (map f xs) body s = for_loop xs (\<lambda>i. body (f i)) s"
  by (induction xs arbitrary: s) (auto split: option.splits)

lemma for_loop_upt_Suc:
  "for_loop [0..<Suc n] body s =
     (case body 0 s of None \<Rightarrow> None | Some s' \<Rightarrow> for_loop [0..<n] (\<lambda>i. body (Suc i)) s')"
proof -
  have "[0..<Suc n] = 0 # [Suc 0..<Suc n]" by (rule upt_conv_Cons) simp
  then have "[0..<Suc n] = 0 # map Suc [0..<n]" by (simp only: map_Suc_upt)
  then show ?thesis by (simp add: for_loop_map del: upt_Suc split: option.split)
qed

lemma draw_glyphs_Cons:
  "draw_glyphs buffer sheet (k # ks) x y color =
     (case buffer_draw_sprite buffer (glyph sheet k) x y color of
        None \<Rightarrow> None
      | Some buffer' \<Rightarrow> draw_glyphs buffer' sheet ks (x + (sprite_width sheet + 1)) y color)"
proof -
  have pos: "x + word_of_nat (Suc i) * (sprite_width sheet + 1) =
        x + (sprite_width sheet + 1) + word_of_nat i * (sprite_width sheet + 1)" for i
    by (simp add: algebra_simps)
  have len: "length (k # ks) = Suc (length ks)" by simp
  show ?thesis
    unfolding draw_glyphs_def len for_loop_upt_Suc pos by (simp split: option.split)
qed

lemma draw_text_loop_glyphs:
  "draw_text_loop sheet y color text xp buffer = draw_glyphs buffer sheet (glyphs_of text) xp y color"
proof (induction "text" arbitrary: xp buffer)
  case Nil
  show ?case by (simp add: glyphs_of_def draw_glyphs_def)
next
  case (Cons c rest)
  show ?case
  proof (cases "c = CHR 0x00")
    case True
    then show ?thesis by (simp add: glyphs_of_def draw_glyphs_def)
  next
    case nz: False
    show ?thesis
    proof (cases "32 \<le> (of_char c :: nat) \<and> (of_char c :: nat) < 97")
      case False
      then have "glyphs_of (c # rest) = glyphs_of rest" using nz by (simp add: glyphs_of_def)
      with False nz Cons.IH show ?thesis by (simp add: glyph_range(1) Let_def)
    next
      case True
      then have g: "glyphs_of (c # rest) = (of_char c - 32) # glyphs_of rest"
        using nz by (simp add: glyphs_of_def)
      from True have sc: "(scast ((of_char c :: 8 word) - 32) :: size_t) = word_of_nat (of_char c - 32)"
        by (intro glyph_range(2)) simp_all
      from True nz Cons.IH show ?thesis
        unfolding g draw_glyphs_Cons
        by (simp add: glyph_range(1) Let_def sc glyph_def split: option.split)
    qed
  qed
qed


text \<open>
  A sheet of 65 glyphs of one pixel each, all set, and a buffer of one row of four
  pixels. In the text \<open>aA\<close> the first character has index \<open>97 - 32 = 65\<close>, outside
  the sheet; the second has index 33.
\<close>

definition dot_sheet :: Sprite where
  "dot_sheet = \<lparr>sprite_width = 1, sprite_height = 1, sprite_data = replicate 65 1\<rparr>"

definition line_buffer :: Buffer where
  "line_buffer = \<lparr>buffer_width = 4, buffer_height = 1, buffer_data = [0, 0, 0, 0]\<rparr>"

lemma draw_text_aA:
  "buffer_draw_text line_buffer dot_sheet ''aA'' 0 0 7 =
     Some \<lparr>buffer_width = 4, buffer_height = 1, buffer_data = [7, 0, 0, 0]\<rparr>"
  by code_simp

lemma claimed_draw_text_aA:
  "claimed_draw_text dot_sheet 0 7 ''aA'' 0 line_buffer =
     Some \<lparr>buffer_width = 4, buffer_height = 1, buffer_data = [0, 0, 7, 0]\<rparr>"
  by code_simp

text \<open>
  Claim C5 as stated fails: the code draws the glyph of \<open>A\<close> at the start of the line,
  the skipped \<open>a\<close> having left the cursor where it was; had the cursor advanced past
  the skipped character, the glyph would be two pixels further right.
\<close>

theorem C5_skip_advances_counterexample:
  "buffer_draw_text line_buffer dot_sheet ''aA'' 0 0 7 =
     Some \<lparr>buffer_width = 4, buffer_height = 1, buffer_data = [7, 0, 0, 0]\<rparr> \<and>
   claimed_draw_text dot_sheet 0 7 ''aA'' 0 line_buffer =
     Some \<lparr>buffer_width = 4, buffer_height = 1, buffer_data = [0, 0, 7, 0]\<rparr> \<and>
   buffer_draw_text line_buffer dot_sheet ''aA'' 0 0 7 \<noteq>
     claimed_draw_text dot_sheet 0 7 ''aA'' 0 line_buffer"
proof -
  have "Some \<lparr>buffer_width = 4, buffer_height = 1, buffer_data = [7, 0, 0, 0 :: uint32_t]\<rparr> \<noteq>
        Some \<lparr>buffer_width = 4, buffer_height = 1, buffer_data = [0, 0, 7, 0]\<rparr>"
    by simp
  then show ?thesis
    unfolding draw_text_aA claimed_draw_text_aA by (intro conjI refl)
qed

text \<open>
  Claim C5, amended. For every text: the characters before the terminator whose code
  point is in \<open>[32, 97)\<close> are drawn, each as glyph \<open>code point - 32\<close>, left to right,
  the \<open>k\<close>-th of them at \<open>x + k * (glyph width + 1)\<close>. A character outside that range
  draws nothing and leaves the cursor where it is: the text draws as the rest of the
  text does from the same \<open>x\<close>. A character inside it draws its glyph at the cursor,
  and the rest of the text is drawn from \<open>x + glyph width + 1\<close>.
\<close>

theorem C5_draw_text_layout:
  "buffer_draw_text buffer sheet str x y color =
     draw_glyphs buffer sheet (glyphs_of str) x y color \<and>
   (c \<noteq> CHR 0x00 \<and> \<not> (32 \<le> (of_char c :: nat) \<and> (of_char c :: nat) < 97) \<longrightarrow>
      buffer_draw_text buffer sheet (c # str) x y color =
        buffer_draw_text buffer sheet str x y color) \<and>
   (32 \<le> (of_char c :: nat) \<and> (of_char c :: nat) < 97 \<longrightarrow>
      buffer_draw_text buffer sheet (c # str) x y color =
        (case buffer_draw_sprite buffer (glyph sheet (of_char c - 32)) x y color of
           None \<Rightarrow> None
         | Some buffer' \<Rightarrow>
             buffer_draw_text buffer' sheet str (x + (sprite_width sheet + 1)) y color))"
proof (intro conjI impI)
  show "buffer_draw_text buffer sheet str x y color =
     draw_glyphs buffer sheet (glyphs_of str) x y color"
    by (simp add: buffer_draw_text_def draw_text_loop_glyphs)
next
  assume "c \<noteq> CHR 0x00 \<and> \<not> (32 \<le> (of_char c :: nat) \<and> (of_char c :: nat) < 97)"
  then have "glyphs_of (c # str) = glyphs_of str" by (simp add: glyphs_of_def)
  then show "buffer_draw_text buffer sheet (c # str) x y color =
        buffer_draw_text buffer sheet str x y color"
    by (simp add: buffer_draw_text_def draw_text_loop_glyphs)
next
  assume r: "32 \<le> (of_char c :: nat) \<and> (of_char c :: nat) < 97"
  then have "c \<noteq> CHR 0x00" by auto
  with r have "glyphs_of (c # str) = (of_char c - 32) # glyphs_of str"
    by (simp add: glyphs_of_def)
  then show "buffer_draw_text buffer sheet (c # str) x y color =
        (case buffer_draw_sprite buffer (glyph sheet (of_char c - 32)) x y color of
           None \<Rightarrow> None
         | Some buffer' \<Rightarrow>
             buffer_draw_text buffer' sheet str (x + (sprite_width sheet + 1)) y color)"
    by (simp add: buffer_draw_text_def draw_text_loop_glyphs draw_glyphs_Cons split: option.split)
qed

theorem C5_draw_text_layout_witness:
  "glyphs_of ''aA'' = [33] \<and>
   buffer_draw_text line_buffer dot_sheet ''aA'' 0 0 7 =
     draw_glyphs line_buffer dot_sheet [33] 0 0 7 \<and>
   CHR ''a'' \<noteq> CHR 0x00 \<and> (of_char CHR ''a'' :: nat) = 97 \<and>
   buffer_draw_text line_buffer dot_sheet ''aA'' 0 0 7 =
     buffer_draw_text line_buffer dot_sheet ''A'' 0 0 7 \<and>
   (of_char CHR ''A'' :: nat) = 65 \<and>
   buffer_draw_text line_buffer dot_sheet ''AA'' 0 0 7 =
     (case buffer_draw_sprite line_buffer (glyph dot_sheet 33) 0 0 7 of
        None \<Rightarrow> None
      | Some buffer' \<Rightarrow> buffer_draw_text buffer' dot_sheet ''A'' (0 + (sprite_width dot_sheet + 1)) 0 7) \<and>
   buffer_draw_text line_buffer dot_sheet ''aA'' 0 0 7 =
     Some \<lparr>buffer_width = 4, buffer_height = 1, buffer_data = [7, 0, 0, 0]\<rparr>"
proof -
  have g: "glyphs_of ''aA'' = [33]" by (simp add: glyphs_of_def)
  have a: "CHR ''a'' \<noteq> CHR 0x00" "(of_char CHR ''a'' :: nat) = 97" "(of_char CHR ''A'' :: nat) = 65"
    by simp_all
  note skip = C5_draw_text_layout [of line_buffer dot_sheet "''A''" 0 0 7 "CHR ''a''"]
  note draw = C5_draw_text_layout [of line_buffer dot_sheet "''A''" 0 0 7 "CHR ''A''"]
  note whole = C5_draw_text_layout [of line_buffer dot_sheet "''aA''" 0 0 7 "CHR ''a''"]
  from whole have 1: "buffer_draw_text line_buffer dot_sheet ''aA'' 0 0 7 =
     draw_glyphs line_buffer dot_sheet [33] 0 0 7"
    unfolding g by (rule conjunct1)
  from skip a have 2: "buffer_draw_text line_buffer dot_sheet ''aA'' 0 0 7 =
     buffer_draw_text line_buffer dot_sheet ''A'' 0 0 7"
    by simp
  from draw a have 3: "buffer_draw_text line_buffer dot_sheet ''AA'' 0 0 7 =
     (case buffer_draw_sprite line_buffer (glyph dot_sheet 33) 0 0 7 of
        None \<Rightarrow> None
      | Some buffer' \<Rightarrow> buffer_draw_text buffer' dot_sheet ''A'' (0 + (sprite_width dot_sheet + 1)) 0 7)"
    by simp
  from g 1 a 2 3 draw_text_aA show ?thesis by (intro conjI)
qed

end
